theory Spec2Isabelle
  imports Main "HOL-Library.Sublist"
begin

section \<open>The build server of custom-cicd-server/main.go\<close>

text \<open>
  The server keeps one package-level map \<open>buildStatuses\<close> from build identifiers to
  \<open>BuildStatus\<close> values. \<open>triggerBuild\<close> stores a first record and launches a goroutine
  that calls \<open>ExecutePipeline\<close> and then stores a closing record; \<open>checkStatus\<close> reads
  the map. Go strings are modelled as \<open>string\<close>, a Go \<open>error\<close> by its message.
\<close>

subsection \<open>Data\<close>

type_synonym error = string

record BuildStatus =
  ID :: string
  Status :: string
  Logs :: string

record PipelineStep =
  Name :: string
  Cmd :: "string list"

record PipelineConfig =
  Pipeline :: "PipelineStep list"

text \<open>
  What the program does to the outside, in the order it does it: a line handed to the
  \<open>log\<close> package, a process started with \<open>exec.Command(...).CombinedOutput()\<close> (its
  argument vector and, when the process exits, the combined output and the error), and
  an assignment \<open>buildStatuses[k] = v\<close>. No function below reads the trace.
\<close>

datatype event =
  Printed string
| Ran "string list" "(string \<times> error option) option"
| Assigned string BuildStatus

record 'w server =
  buildStatuses :: "string \<rightharpoonup> BuildStatus"
  world :: 'w
  events :: "event list"

text \<open>
  The operating system is a parameter: \<open>run w name args\<close> is what
  \<open>exec.Command(name, args...).CombinedOutput()\<close> does in the world \<open>w\<close>. \<open>None\<close> is a
  process that never exits (the call blocks for ever, the source sets no timeout);
  \<open>Some (output, err, w')\<close> is the combined output, the error (\<open>None\<close> for Go's
  \<open>nil\<close>: the process started and exited with status 0) and the world afterwards.
\<close>

type_synonym 'w runner = "'w \<Rightarrow> string \<Rightarrow> string list \<Rightarrow> (string \<times> error option \<times> 'w) option"

datatype 'a result = Returned 'a | Panicked | Blocked

datatype body =
  Plain string
| JSON_Object "(string \<times> string) list"
| JSON_BuildStatus BuildStatus

record response =
  code :: nat
  body :: body

subsection \<open>Effects\<close>

definition emit :: "event \<Rightarrow> 'w server \<Rightarrow> 'w server" where
  "emit e s = s\<lparr>events := events s @ [e]\<rparr>"

definition log_Printf :: "string \<Rightarrow> 'w server \<Rightarrow> 'w server" where
  "log_Printf line s = emit (Printed line) s"

definition log_Println :: "string \<Rightarrow> 'w server \<Rightarrow> 'w server" where
  "log_Println line s = emit (Printed line) s"

definition assign :: "string \<Rightarrow> BuildStatus \<Rightarrow> 'w server \<Rightarrow> 'w server" where
  "assign k v s = emit (Assigned k v) (s\<lparr>buildStatuses := (buildStatuses s)(k \<mapsto> v)\<rparr>)"

definition init_server :: "'w \<Rightarrow> 'w server" where
  "init_server w = \<lparr>buildStatuses = Map.empty, world = w, events = []\<rparr>"

subsection \<open>ExecutePipeline (main.go, lines 189 to 218)\<close>

text \<open>
  One iteration of the \<open>for _, step := range steps\<close> loop, lines 192 to 215. The first
  component is \<open>None\<close> when the loop goes on and \<open>Some r\<close> when the function is left:
  \<open>Returned (Some e)\<close> for \<open>return err\<close>, \<open>Panicked\<close> for the run-time panic of
  \<open>step.Cmd[0]\<close> on an empty slice (index out of range), \<open>Blocked\<close> when the process
  never exits.
\<close>

definition loop_body ::
  "'w runner \<Rightarrow> PipelineStep \<Rightarrow> string \<Rightarrow> 'w server \<Rightarrow> error option result option \<times> 'w server" where
  "loop_body run step buildID s0 =
     (let s1 = log_Printf (''Executing step: '' @ Name step) s0 in
      case Cmd step of
        [] \<Rightarrow> (Some Panicked, s1)
      | name # args \<Rightarrow>
         (case run (world s1) name args of
            None \<Rightarrow> (Some Blocked, emit (Ran (name # args) None) s1)
          | Some (output, err, w) \<Rightarrow>
             (let s2 = emit (Ran (name # args) (Some (output, err))) (s1\<lparr>world := w\<rparr>) in
              case err of
                Some e \<Rightarrow>
                  (let s3 = log_Printf (''Error in step '' @ Name step @ '': '' @ e @
                                        [CHR 0x0A] @ ''Output: '' @ output) s2
                   in (Some (Returned (Some e)),
                       assign buildID \<lparr>ID = buildID, Status = ''Failed'',
                         Logs = ''Step '' @ Name step @ '' failed: '' @ output\<rparr> s3))
              | None \<Rightarrow>
                  (let s3 = log_Printf (''Output of step '' @ Name step @ '': '' @ output) s2
                   in (None,
                       assign buildID \<lparr>ID = buildID, Status = ''In Progress'',
                         Logs = ''Step '' @ Name step @ '' completed successfully''\<rparr> s3)))))"

fun ExecutePipeline ::
  "'w runner \<Rightarrow> PipelineStep list \<Rightarrow> string \<Rightarrow> 'w server \<Rightarrow> error option result \<times> 'w server" where
  "ExecutePipeline run [] buildID s = (Returned None, s)"
| "ExecutePipeline run (step # steps) buildID s =
     (case loop_body run step buildID s of
        (None, s') \<Rightarrow> ExecutePipeline run steps buildID s'
      | (Some r, s') \<Rightarrow> (r, s'))"

subsection \<open>triggerBuild (lines 109 to 149) and its goroutine (lines 130 to 141)\<close>

text \<open>
  Lines 132 to 140: what the goroutine does once \<open>ExecutePipeline\<close> has returned \<open>err\<close>.
  The goroutine's parameter \<open>id\<close> is written \<open>bid\<close>, since \<open>id\<close> is the identity of HOL.
\<close>

definition goroutine_finish :: "string \<Rightarrow> error option \<Rightarrow> 'w server \<Rightarrow> 'w server" where
  "goroutine_finish bid err s =
     (let status = (if err \<noteq> None then ''Failed'' else ''Success'') in
      assign bid \<lparr>ID = bid, Status = status,
                 Logs = ''Pipeline completed with status: '' @ status\<rparr> s)"

text \<open>
  The goroutine run from its start to its end with nothing else scheduled in between. A
  panic is not recovered anywhere, so it ends the whole process; a blocked call never
  comes back. In both cases line 136 is not reached.
\<close>

definition build_goroutine ::
  "'w runner \<Rightarrow> PipelineStep list \<Rightarrow> string \<Rightarrow> 'w server \<Rightarrow> unit result \<times> 'w server" where
  "build_goroutine run pipeline bid s =
     (case ExecutePipeline run pipeline bid s of
        (Returned err, s') \<Rightarrow> (Returned (), goroutine_finish bid err s')
      | (Panicked, s') \<Rightarrow> (Panicked, s')
      | (Blocked, s') \<Rightarrow> (Blocked, s'))"

text \<open>
  The handler itself. \<open>loaded\<close> is what \<open>LoadConfig("config.yaml")\<close> returns (the file
  and its parser are outside the program) and \<open>uuid\<close> is what \<open>generateUUID()\<close> returns.
  The second component is the goroutine the handler launches, if any: the identifier and
  the pipeline it was given. \<open>encoding/json\<close> writes the keys of a map in sorted order.
\<close>

definition triggerBuild ::
  "error + PipelineConfig \<Rightarrow> string \<Rightarrow> 'w server \<Rightarrow>
     response \<times> (string \<times> PipelineStep list) option \<times> 'w server" where
  "triggerBuild loaded uuid s0 =
     (let s1 = log_Println ''Triggering build...'' s0 in
      case loaded of
        Inl err \<Rightarrow>
          (\<lparr>code = 500, body = Plain ''Failed to load pipeline configuration''\<rparr>, None, s1)
      | Inr config \<Rightarrow>
          (let buildID = uuid;
               s2 = assign buildID \<lparr>ID = buildID, Status = ''In Progress'', Logs = ''''\<rparr> s1
           in (\<lparr>code = 200,
                body = JSON_Object [(''id'', buildID), (''message'', ''Build triggered'')]\<rparr>,
               Some (buildID, Pipeline config), s2)))"

text \<open>
  A build from the request to the end of its goroutine, when nothing else is scheduled
  in between: the handler with a configuration that loaded, then the goroutine it
  launched.
\<close>

definition run_build ::
  "'w runner \<Rightarrow> PipelineConfig \<Rightarrow> string \<Rightarrow> 'w server \<Rightarrow> unit result \<times> 'w server" where
  "run_build run config uuid s =
     (case triggerBuild (Inr config) uuid s of
        (resp, Some (bid, steps), s1) \<Rightarrow> build_goroutine run steps bid s1
      | (resp, None, s1) \<Rightarrow> (Returned (), s1))"

subsection \<open>checkStatus (lines 152 to 164)\<close>

definition checkStatus :: "string \<Rightarrow> 'w server \<Rightarrow> response" where
  "checkStatus buildID s =
     (case buildStatuses s buildID of
        None \<Rightarrow> \<lparr>code = 404, body = Plain ''Build ID not found''\<rparr>
      | Some status \<Rightarrow> \<lparr>code = 200, body = JSON_BuildStatus status\<rparr>)"

subsection \<open>The server as a whole: handlers and goroutines, interleaved\<close>

text \<open>
  A goroutine launched by \<open>triggerBuild\<close> is either inside the loop of
  \<open>ExecutePipeline\<close>, with the steps it has not started yet, or back from it with the
  error it returned and about to execute lines 132 to 140.
\<close>

datatype pc = Looping "PipelineStep list" | Finishing "error option"

text \<open>
  One scheduling slice of the goroutine of build \<open>bid\<close>: one iteration of the loop, the
  return from a loop that has no step left, or the closing assignment. \<open>Returned None\<close>
  says that the goroutine has ended, \<open>Returned (Some p)\<close> that it goes on from \<open>p\<close>.
\<close>

fun goroutine_step ::
  "'w runner \<Rightarrow> string \<Rightarrow> pc \<Rightarrow> 'w server \<Rightarrow> pc option result \<times> 'w server" where
  "goroutine_step run bid (Looping []) s = (Returned (Some (Finishing None)), s)"
| "goroutine_step run bid (Looping (step # steps)) s =
     (case loop_body run step bid s of
        (None, s') \<Rightarrow> (Returned (Some (Looping steps)), s')
      | (Some (Returned err), s') \<Rightarrow> (Returned (Some (Finishing err)), s')
      | (Some Panicked, s') \<Rightarrow> (Panicked, s')
      | (Some Blocked, s') \<Rightarrow> (Blocked, s'))"
| "goroutine_step run bid (Finishing err) s = (Returned None, goroutine_finish bid err s)"

text \<open>
  The process: the package-level state, the goroutines that are alive (a blocked one
  is dropped from the list: it never takes another step) and whether a panic has ended
  the process.
\<close>

record 'w system =
  srv :: "'w server"
  live :: "(string \<times> pc) list"
  ended :: bool

definition boot :: "'w \<Rightarrow> 'w system" where
  "boot w = \<lparr>srv = init_server w, live = [], ended = False\<rparr>"

definition sys_trigger ::
  "error + PipelineConfig \<Rightarrow> string \<Rightarrow> 'w system \<Rightarrow> response \<times> 'w system" where
  "sys_trigger loaded uuid \<sigma> =
     (case triggerBuild loaded uuid (srv \<sigma>) of
        (resp, None, s') \<Rightarrow> (resp, \<sigma>\<lparr>srv := s'\<rparr>)
      | (resp, Some (bid, steps), s') \<Rightarrow>
          (resp, \<sigma>\<lparr>srv := s', live := live \<sigma> @ [(bid, Looping steps)]\<rparr>))"

definition sys_advance :: "'w runner \<Rightarrow> nat \<Rightarrow> 'w system \<Rightarrow> 'w system" where
  "sys_advance run i \<sigma> =
     (if i < length (live \<sigma>) then
        (case live \<sigma> ! i of (bid, p) \<Rightarrow>
           (case goroutine_step run bid p (srv \<sigma>) of
              (Returned (Some p'), s') \<Rightarrow> \<sigma>\<lparr>srv := s', live := (live \<sigma>)[i := (bid, p')]\<rparr>
            | (Returned None, s') \<Rightarrow>
                \<sigma>\<lparr>srv := s', live := take i (live \<sigma>) @ drop (Suc i) (live \<sigma>)\<rparr>
            | (Blocked, s') \<Rightarrow>
                \<sigma>\<lparr>srv := s', live := take i (live \<sigma>) @ drop (Suc i) (live \<sigma>)\<rparr>
            | (Panicked, s') \<Rightarrow> \<sigma>\<lparr>srv := s', ended := True\<rparr>))
      else \<sigma>)"

text \<open>
  \<open>reach run w \<sigma> ids\<close>: the process started in the world \<open>w\<close> can be in the state \<open>\<sigma>\<close>,
  and \<open>ids\<close> are the identifiers for which a call of \<open>triggerBuild\<close> has created a
  record so far, oldest first (one entry for each such call). While the process is
  running, any request may be served and any live goroutine may be scheduled (\<open>i\<close> is
  its position among the live ones); \<open>checkStatus\<close> changes nothing. Each handler call
  and each slice of a goroutine is one step: a slice touches the map once, and the
  accesses to the map are taken to happen one after the other (the source has no lock
  around \<open>buildStatuses\<close>; what two goroutines that access it at the same instant
  observe is outside this model).
\<close>

inductive reach :: "'w runner \<Rightarrow> 'w \<Rightarrow> 'w system \<Rightarrow> string list \<Rightarrow> bool"
  for run :: "'w runner" and w :: 'w where
  reach_boot: "reach run w (boot w) []"
| reach_trigger_failed:
    "reach run w \<sigma> ids \<Longrightarrow> \<not> ended \<sigma> \<Longrightarrow>
       reach run w (snd (sys_trigger (Inl e) uuid \<sigma>)) ids"
| reach_trigger:
    "reach run w \<sigma> ids \<Longrightarrow> \<not> ended \<sigma> \<Longrightarrow>
       reach run w (snd (sys_trigger (Inr config) uuid \<sigma>)) (ids @ [uuid])"
| reach_advance:
    "reach run w \<sigma> ids \<Longrightarrow> \<not> ended \<sigma> \<Longrightarrow> i < length (live \<sigma>) \<Longrightarrow>
       reach run w (sys_advance run i \<sigma>) ids"

subsection \<open>Reading the trace\<close>

fun writes_to :: "string \<Rightarrow> event list \<Rightarrow> BuildStatus list" where
  "writes_to k [] = []"
| "writes_to k (Assigned k' v # es) = (if k' = k then v # writes_to k es else writes_to k es)"
| "writes_to k (e # es) = writes_to k es"

fun runs_of :: "event list \<Rightarrow> (string list \<times> (string \<times> error option) option) list" where
  "runs_of [] = []"
| "runs_of (Ran argv r # es) = (argv, r) # runs_of es"
| "runs_of (e # es) = runs_of es"

fun printed :: "event list \<Rightarrow> string list" where
  "printed [] = []"
| "printed (Printed l # es) = l # printed es"
| "printed (e # es) = printed es"

text \<open>A run that exited with a \<open>nil\<close> error.\<close>

fun exited_ok :: "string list \<times> (string \<times> error option) option \<Rightarrow> bool" where
  "exited_ok (argv, Some (out, None)) = True"
| "exited_ok (argv, r) = False"

subsection \<open>Vocabulary of the properties\<close>

text \<open>
  What lines 193 and 194 yield for one step in the world \<open>w\<close>, when they yield
  anything: \<open>None\<close> when the command vector is empty or the process never exits.
\<close>

definition run_step ::
  "'w runner \<Rightarrow> 'w \<Rightarrow> PipelineStep \<Rightarrow> (string \<times> error option \<times> 'w) option" where
  "run_step run w step = (case Cmd step of [] \<Rightarrow> None | name # args \<Rightarrow> run w name args)"

text \<open>
  \<open>succeed_all run w steps = Some w'\<close>: run one after the other from the world \<open>w\<close>,
  every step of \<open>steps\<close> exits with a \<open>nil\<close> error, and the world is \<open>w'\<close> afterwards.
\<close>

fun succeed_all :: "'w runner \<Rightarrow> 'w \<Rightarrow> PipelineStep list \<Rightarrow> 'w option" where
  "succeed_all run w [] = Some w"
| "succeed_all run w (step # steps) =
     (case run_step run w step of
        Some (out, None, w') \<Rightarrow> succeed_all run w' steps
      | _ \<Rightarrow> None)"

text \<open>The records that lines 211 to 215 and lines 199 to 203 assign.\<close>

definition progress_record :: "string \<Rightarrow> PipelineStep \<Rightarrow> BuildStatus" where
  "progress_record buildID step =
     \<lparr>ID = buildID, Status = ''In Progress'',
      Logs = ''Step '' @ Name step @ '' completed successfully''\<rparr>"

definition failure_record :: "string \<Rightarrow> PipelineStep \<Rightarrow> string \<Rightarrow> BuildStatus" where
  "failure_record buildID step output =
     \<lparr>ID = buildID, Status = ''Failed'',
      Logs = ''Step '' @ Name step @ '' failed: '' @ output\<rparr>"

text \<open>
  The phases of the specification are the strings \<open>Pending\<close>, \<open>In Progress\<close>,
  \<open>Success\<close> and \<open>Failed\<close> of the \<open>status\<close> field. \<open>phase_step p q\<close>: writing \<open>q\<close> over
  \<open>p\<close> either keeps the phase or moves one arrow along
  Pending, In Progress, then Success or Failed.
\<close>

definition phase_step :: "string \<Rightarrow> string \<Rightarrow> bool" where
  "phase_step p q \<longleftrightarrow>
     (p = ''Pending'' \<or> p = ''In Progress'' \<or> p = ''Success'' \<or> p = ''Failed'') \<and>
     (q = p \<or> (p = ''Pending'' \<and> q = ''In Progress'') \<or>
      (p = ''In Progress'' \<and> (q = ''Success'' \<or> q = ''Failed'')))"

text \<open>
  The phases written so far to the record of \<open>bid\<close>, oldest first, and the shapes this
  list takes. \<open>progressing\<close>: one or more times \<open>In Progress\<close>. \<open>live_shape p\<close>: what
  has been written when the build's goroutine stands at \<open>p\<close> (after a failed step,
  \<open>Failed\<close> has been written once). \<open>done_shape\<close>: what has been written when the
  goroutine is gone (it ended, or it is blocked for ever).
\<close>

definition phases :: "string \<Rightarrow> 'w system \<Rightarrow> string list" where
  "phases bid \<sigma> = map Status (writes_to bid (events (srv \<sigma>)))"

definition progressing :: "string list \<Rightarrow> bool" where
  "progressing ps \<longleftrightarrow> ps \<noteq> [] \<and> list_all (\<lambda>p. p = ''In Progress'') ps"

definition live_shape :: "pc \<Rightarrow> string list \<Rightarrow> bool" where
  "live_shape p ps =
     (case p of
        Finishing (Some e) \<Rightarrow> ps \<noteq> [] \<and> last ps = ''Failed'' \<and> progressing (butlast ps)
      | _ \<Rightarrow> progressing ps)"

definition done_shape :: "string list \<Rightarrow> bool" where
  "done_shape ps \<longleftrightarrow>
     progressing ps \<or>
     (\<exists>qs. progressing qs \<and> (ps = qs @ [''Success''] \<or> ps = qs @ [''Failed'', ''Failed'']))"

text \<open>
  The invariant of the reachable states in which every identifier was drawn once: at
  most one goroutine per identifier, only for identifiers that were drawn; nothing
  written for an identifier that was not drawn; and for the others the shape above.
\<close>

definition phases_inv :: "'w system \<Rightarrow> string list \<Rightarrow> bool" where
  "phases_inv \<sigma> ids \<longleftrightarrow>
     distinct (map fst (live \<sigma>)) \<and> fst ` set (live \<sigma>) \<subseteq> set ids \<and>
     (\<forall>bid. bid \<notin> set ids \<longrightarrow> phases bid \<sigma> = []) \<and>
     (\<forall>bid p. (bid, p) \<in> set (live \<sigma>) \<longrightarrow> live_shape p (phases bid \<sigma>)) \<and>
     (\<forall>bid. bid \<in> set ids \<and> bid \<notin> fst ` set (live \<sigma>) \<longrightarrow> done_shape (phases bid \<sigma>))"

text \<open>
  A small operating system for the examples: \<open>true\<close> exits with status 0, \<open>false\<close> with
  status 1, \<open>sh\<close> prints \<open>boom\<close> and exits with status 1, \<open>yes\<close> never exits, and no
  other executable exists. The world counts the processes that have exited.
\<close>

definition sample_run :: "nat runner" where
  "sample_run w name args =
     (if name = ''true'' then Some ([], None, Suc w)
      else if name = ''false'' then Some ([], Some ''exit status 1'', Suc w)
      else if name = ''sh'' then Some (''boom'', Some ''exit status 1'', Suc w)
      else if name = ''yes'' then None
      else Some ([], Some (''exec: '' @ name @ '': executable file not found in $PATH''), w))"

definition compile_test_deploy :: "PipelineStep list" where
  "compile_test_deploy =
     [\<lparr>Name = ''compile'', Cmd = [''true'']\<rparr>,
      \<lparr>Name = ''test'', Cmd = [''false'']\<rparr>,
      \<lparr>Name = ''deploy'', Cmd = [''true'']\<rparr>]"

definition compile_package_deploy :: "PipelineStep list" where
  "compile_package_deploy =
     [\<lparr>Name = ''compile'', Cmd = [''true'']\<rparr>,
      \<lparr>Name = ''package'', Cmd = [''true'']\<rparr>,
      \<lparr>Name = ''deploy'', Cmd = [''true'']\<rparr>]"

definition build_only :: PipelineConfig where
  "build_only = \<lparr>Pipeline = [\<lparr>Name = ''build'', Cmd = [''true'']\<rparr>]\<rparr>"

definition failing_test :: PipelineConfig where
  "failing_test =
     \<lparr>Pipeline = [\<lparr>Name = ''test'', Cmd = [''sh'', ''-c'', ''echo boom; exit 1'']\<rparr>]\<rparr>"

text \<open>A step with no command, as a \<open>config.yaml\<close> that leaves \<open>cmd\<close> out yields it.\<close>

definition lint_only :: PipelineConfig where
  "lint_only = \<lparr>Pipeline = [\<lparr>Name = ''lint'', Cmd = []\<rparr>]\<rparr>"

text \<open>The server after two builds have run to their end: \<open>b1\<close> succeeded, \<open>b2\<close> failed.\<close>

definition after_two_builds :: "nat server" where
  "after_two_builds =
     snd (run_build sample_run \<lparr>Pipeline = compile_test_deploy\<rparr> ''b2''
       (snd (run_build sample_run build_only ''b1'' (init_server 0))))"

section \<open>Auxiliary facts\<close>

subsection \<open>Effects and traces\<close>

lemma emit_simps [simp]:
  "events (emit e s) = events s @ [e]"
  "world (emit e s) = world s"
  "buildStatuses (emit e s) = buildStatuses s"
  by (simp_all add: emit_def)

lemma log_Printf_simps [simp]:
  "events (log_Printf l s) = events s @ [Printed l]"
  "world (log_Printf l s) = world s"
  "buildStatuses (log_Printf l s) = buildStatuses s"
  by (simp_all add: log_Printf_def)

lemma log_Println_simps [simp]:
  "events (log_Println l s) = events s @ [Printed l]"
  "world (log_Println l s) = world s"
  "buildStatuses (log_Println l s) = buildStatuses s"
  by (simp_all add: log_Println_def)

lemma assign_simps [simp]:
  "events (assign k v s) = events s @ [Assigned k v]"
  "world (assign k v s) = world s"
  "buildStatuses (assign k v s) = (buildStatuses s)(k \<mapsto> v)"
  by (simp_all add: assign_def)

lemma goroutine_finish_simps [simp]:
  "events (goroutine_finish bid err s) = events s @
     [Assigned bid \<lparr>ID = bid, Status = (if err = None then ''Success'' else ''Failed''),
        Logs = ''Pipeline completed with status: '' @ (if err = None then ''Success'' else ''Failed'')\<rparr>]"
  "world (goroutine_finish bid err s) = world s"
  "buildStatuses (goroutine_finish bid err s) = (buildStatuses s)(bid \<mapsto>
     \<lparr>ID = bid, Status = (if err = None then ''Success'' else ''Failed''),
        Logs = ''Pipeline completed with status: '' @ (if err = None then ''Success'' else ''Failed'')\<rparr>)"
  by (simp_all add: goroutine_finish_def Let_def)

lemma writes_to_append [simp]: "writes_to k (xs @ ys) = writes_to k xs @ writes_to k ys"
  by (induction k xs rule: writes_to.induct) simp_all

lemma runs_of_append [simp]: "runs_of (xs @ ys) = runs_of xs @ runs_of ys"
  by (induction xs rule: runs_of.induct) simp_all

lemma printed_append [simp]: "printed (xs @ ys) = printed xs @ printed ys"
  by (induction xs rule: printed.induct) simp_all

subsection \<open>One iteration of the loop\<close>

lemma loop_body_ok:
  assumes "run_step run (world s) step = Some (out, None, w')"
  shows "\<exists>s'. loop_body run step bid s = (None, s') \<and> world s' = w' \<and>
           buildStatuses s' = (buildStatuses s)(bid \<mapsto> progress_record bid step) \<and>
           events s' = events s @ [Printed (''Executing step: '' @ Name step),
              Ran (Cmd step) (Some (out, None)),
              Printed (''Output of step '' @ Name step @ '': '' @ out),
              Assigned bid (progress_record bid step)]"
  using assms
  by (auto simp: loop_body_def run_step_def progress_record_def Let_def split: list.splits)

lemma loop_body_failed:
  assumes "run_step run (world s) step = Some (out, Some e, w')"
  shows "\<exists>s'. loop_body run step bid s = (Some (Returned (Some e)), s') \<and> world s' = w' \<and>
           buildStatuses s' = (buildStatuses s)(bid \<mapsto> failure_record bid step out) \<and>
           events s' = events s @ [Printed (''Executing step: '' @ Name step),
              Ran (Cmd step) (Some (out, Some e)),
              Printed (''Error in step '' @ Name step @ '': '' @ e @ [CHR 0x0A] @ ''Output: '' @ out),
              Assigned bid (failure_record bid step out)]"
  using assms
  by (auto simp: loop_body_def run_step_def failure_record_def Let_def split: list.splits)

lemma loop_body_cases:
  obtains
    (panic) "Cmd step = []" "loop_body run step bid s = (Some Panicked, log_Printf (''Executing step: '' @ Name step) s)"
  | (blocked) name args where "Cmd step = name # args" "run (world s) name args = None"
      "loop_body run step bid s = (Some Blocked, emit (Ran (Cmd step) None) (log_Printf (''Executing step: '' @ Name step) s))"
  | (ok) out w' where "run_step run (world s) step = Some (out, None, w')"
  | (failed) out e w' where "run_step run (world s) step = Some (out, Some e, w')"
proof (cases "Cmd step")
  case Nil
  then show ?thesis using panic by (simp add: loop_body_def)
next
  case (Cons name args)
  show ?thesis
  proof (cases "run (world s) name args")
    case None
    then show ?thesis using blocked Cons by (simp add: loop_body_def)
  next
    case (Some r)
    obtain out err w' where r: "r = (out, err, w')" by (cases r)
    show ?thesis
    proof (cases err)
      case None
      then show ?thesis using ok Some Cons r by (simp add: run_step_def)
    next
      case (Some e)
      then show ?thesis using failed \<open>run (world s) name args = Some r\<close> Cons r by (simp add: run_step_def)
    qed
  qed
qed

lemma loop_body_not_Returned_None: "loop_body run step bid s \<noteq> (Some (Returned None), s')"
  by (rule loop_body_cases[where step=step and run=run and s=s and bid=bid]) (auto dest: loop_body_ok[where bid=bid] loop_body_failed[where bid=bid])

lemma loop_body_map:
  "buildStatuses (snd (loop_body run step bid s)) = buildStatuses s \<or>
   (\<exists>v. buildStatuses (snd (loop_body run step bid s)) = (buildStatuses s)(bid \<mapsto> v))"
proof (rule loop_body_cases[where step=step and run=run and s=s and bid=bid])
  fix out w'
  assume "run_step run (world s) step = Some (out, None, w')"
  from loop_body_ok[OF this, of bid] show ?thesis by auto
next
  fix out e w'
  assume "run_step run (world s) step = Some (out, Some e, w')"
  from loop_body_failed[OF this, of bid] show ?thesis by auto
qed simp_all

lemma loop_body_frame:
  "k \<noteq> bid \<Longrightarrow> buildStatuses (snd (loop_body run step bid s)) k = buildStatuses s k"
  using loop_body_map[of run step bid s] by auto

lemma loop_body_dom:
  "bid \<in> dom (buildStatuses s) \<Longrightarrow>
     dom (buildStatuses (snd (loop_body run step bid s))) = dom (buildStatuses s)"
  using loop_body_map[of run step bid s] by (auto split: if_splits)

lemma loop_body_writes_other:
  "k \<noteq> bid \<Longrightarrow> writes_to k (events (snd (loop_body run step bid s))) = writes_to k (events s)"
proof (rule loop_body_cases[where step=step and run=run and s=s and bid=bid])
  fix out w'
  assume "run_step run (world s) step = Some (out, None, w')" and "k \<noteq> bid"
  with loop_body_ok[of run s step out w' bid] show ?thesis by auto
next
  fix out e w'
  assume "run_step run (world s) step = Some (out, Some e, w')" and "k \<noteq> bid"
  with loop_body_failed[of run s step out e w' bid] show ?thesis by auto
qed simp_all

subsection \<open>ExecutePipeline on a whole pipeline\<close>

lemma EP_append:
  "ExecutePipeline run (xs @ ys) bid s =
     (case ExecutePipeline run xs bid s of
        (Returned None, s') \<Rightarrow> ExecutePipeline run ys bid s'
      | (r, s') \<Rightarrow> (r, s'))"
proof (induction xs arbitrary: s)
  case Nil
  then show ?case by simp
next
  case (Cons x xs)
  show ?case
  proof (cases "loop_body run x bid s")
    case (Pair c s1)
    show ?thesis
    proof (cases c)
      case None
      then show ?thesis using Pair Cons by simp
    next
      case (Some r)
      have "r \<noteq> Returned None" using Pair Some loop_body_not_Returned_None by metis
      then show ?thesis using Pair Some by (cases r) (auto split: option.splits)
    qed
  qed
qed

lemma EP_success:
  "succeed_all run (world s) steps = Some w' \<Longrightarrow>
   \<exists>s'. ExecutePipeline run steps bid s = (Returned None, s') \<and> world s' = w' \<and>
     writes_to bid (events s') = writes_to bid (events s) @ map (progress_record bid) steps \<and>
     map fst (runs_of (events s')) = map fst (runs_of (events s)) @ map Cmd steps \<and>
     (\<forall>k. k \<noteq> bid \<longrightarrow> buildStatuses s' k = buildStatuses s k) \<and>
     buildStatuses s' bid = (if steps = [] then buildStatuses s bid else Some (progress_record bid (last steps)))"
proof (induction steps arbitrary: s)
  case Nil
  then show ?case by simp
next
  case (Cons st steps)
  from Cons.prems obtain out w1 where
    r: "run_step run (world s) st = Some (out, None, w1)" and
    rest: "succeed_all run w1 steps = Some w'"
    by (auto split: option.splits prod.splits)
  from loop_body_ok[OF r, of bid] obtain s1 where
    s1: "loop_body run st bid s = (None, s1)" "world s1 = w1"
      "buildStatuses s1 = (buildStatuses s)(bid \<mapsto> progress_record bid st)"
      "events s1 = events s @ [Printed (''Executing step: '' @ Name st),
              Ran (Cmd st) (Some (out, None)),
              Printed (''Output of step '' @ Name st @ '': '' @ out),
              Assigned bid (progress_record bid st)]"
    by blast
  from Cons.IH[of s1] rest s1(2) obtain s' where
    s': "ExecutePipeline run steps bid s1 = (Returned None, s')" "world s' = w'"
     "writes_to bid (events s') = writes_to bid (events s1) @ map (progress_record bid) steps"
     "map fst (runs_of (events s')) = map fst (runs_of (events s1)) @ map Cmd steps"
     "\<forall>k. k \<noteq> bid \<longrightarrow> buildStatuses s' k = buildStatuses s1 k"
     "buildStatuses s' bid = (if steps = [] then buildStatuses s1 bid else Some (progress_record bid (last steps)))"
    by blast
  show ?case
    using s1 s' by simp
qed

lemma EP_fails_at:
  assumes k: "k < length steps"
    and ok: "succeed_all run (world s) (take k steps) = Some w"
    and bad: "run_step run w (steps ! k) = Some (out, Some e, w')"
  shows "\<exists>s'. ExecutePipeline run steps bid s = (Returned (Some e), s') \<and> world s' = w' \<and>
     writes_to bid (events s') = writes_to bid (events s) @
        map (progress_record bid) (take k steps) @ [failure_record bid (steps ! k) out] \<and>
     map fst (runs_of (events s')) = map fst (runs_of (events s)) @ map Cmd (take (Suc k) steps) \<and>
     (\<forall>j. j \<noteq> bid \<longrightarrow> buildStatuses s' j = buildStatuses s j) \<and>
     buildStatuses s' bid = Some (failure_record bid (steps ! k) out)"
proof -
  from EP_success[OF ok, of bid] obtain s1 where
    s1: "ExecutePipeline run (take k steps) bid s = (Returned None, s1)" "world s1 = w"
     "writes_to bid (events s1) = writes_to bid (events s) @ map (progress_record bid) (take k steps)"
     "map fst (runs_of (events s1)) = map fst (runs_of (events s)) @ map Cmd (take k steps)"
     "\<forall>j. j \<noteq> bid \<longrightarrow> buildStatuses s1 j = buildStatuses s j"
    by blast
  from bad s1(2) have "run_step run (world s1) (steps ! k) = Some (out, Some e, w')" by simp
  from loop_body_failed[OF this, of bid] obtain s2 where
    s2: "loop_body run (steps ! k) bid s1 = (Some (Returned (Some e)), s2)" "world s2 = w'"
      "buildStatuses s2 = (buildStatuses s1)(bid \<mapsto> failure_record bid (steps ! k) out)"
      "events s2 = events s1 @ [Printed (''Executing step: '' @ Name (steps ! k)),
              Ran (Cmd (steps ! k)) (Some (out, Some e)),
              Printed (''Error in step '' @ Name (steps ! k) @ '': '' @ e @ [CHR 0x0A] @ ''Output: '' @ out),
              Assigned bid (failure_record bid (steps ! k) out)]"
    by blast
  have split: "steps = take k steps @ (steps ! k # drop (Suc k) steps)"
    using k by (simp add: id_take_nth_drop[symmetric])
  have "ExecutePipeline run steps bid s =
        ExecutePipeline run (take k steps @ (steps ! k # drop (Suc k) steps)) bid s"
    using split by simp
  also have "\<dots> = ExecutePipeline run (steps ! k # drop (Suc k) steps) bid s1"
    by (simp only: EP_append s1(1)) simp
  also have "\<dots> = (Returned (Some e), s2)"
    using s2(1) by simp
  finally have "ExecutePipeline run steps bid s = (Returned (Some e), s2)" .
  moreover have "map Cmd (take (Suc k) steps) = map Cmd (take k steps) @ [Cmd (steps ! k)]"
    using k by (simp add: take_Suc_conv_app_nth)
  ultimately show ?thesis
    using s1 s2 by simp
qed

lemma run_step_Some_Cmd: "run_step run w step = Some r \<Longrightarrow> Cmd step \<noteq> []"
  by (auto simp: run_step_def)

lemma EP_runs_exact:
  "\<exists>rs. runs_of (events (snd (ExecutePipeline run steps bid s))) = runs_of (events s) @ rs \<and>
        length rs \<le> length steps \<and>
        map fst rs = map Cmd (take (length rs) steps) \<and>
        list_all exited_ok (butlast rs) \<and>
        (\<forall>i<length rs. Cmd (steps ! i) \<noteq> [] \<and>
           (\<exists>w. succeed_all run (world s) (take i steps) = Some w \<and>
                snd (rs ! i) = map_option (\<lambda>(out, err, w'). (out, err)) (run_step run w (steps ! i)))) \<and>
        (length rs < length steps \<longrightarrow>
           (rs \<noteq> [] \<and> \<not> exited_ok (last rs)) \<or> Cmd (steps ! length rs) = []) \<and>
        (fst (ExecutePipeline run steps bid s) = Returned None \<longleftrightarrow>
           length rs = length steps \<and> list_all exited_ok rs) \<and>
        (fst (ExecutePipeline run steps bid s) = Panicked \<longleftrightarrow>
           length rs < length steps \<and> list_all exited_ok rs) \<and>
        (fst (ExecutePipeline run steps bid s) = Blocked \<longleftrightarrow>
           rs \<noteq> [] \<and> snd (last rs) = None) \<and>
        (\<forall>e. fst (ExecutePipeline run steps bid s) = Returned (Some e) \<longleftrightarrow>
           rs \<noteq> [] \<and> (\<exists>out. snd (last rs) = Some (out, Some e)))"
proof (induction steps arbitrary: s)
  case Nil
  then show ?case by simp
next
  case (Cons st steps)
  show ?case
  proof (rule loop_body_cases[where step=st and run=run and s=s and bid=bid])
    assume "Cmd st = []" and
      lb: "loop_body run st bid s = (Some Panicked, log_Printf (''Executing step: '' @ Name st) s)"
    then show ?thesis by (intro exI[of _ "[]"]) simp
  next
    fix name args
    assume c: "Cmd st = name # args" and n: "run (world s) name args = None" and
      lb: "loop_body run st bid s = (Some Blocked, emit (Ran (Cmd st) None) (log_Printf (''Executing step: '' @ Name st) s))"
    have "run_step run (world s) st = None" using c n by (simp add: run_step_def)
    then show ?thesis using c lb by (intro exI[of _ "[(Cmd st, None)]"]) simp
  next
    fix out e w'
    assume r: "run_step run (world s) st = Some (out, Some e, w')"
    from loop_body_failed[OF r, of bid] obtain s' where
      s': "loop_body run st bid s = (Some (Returned (Some e)), s')"
        "events s' = events s @ [Printed (''Executing step: '' @ Name st),
              Ran (Cmd st) (Some (out, Some e)),
              Printed (''Error in step '' @ Name st @ '': '' @ e @ [CHR 0x0A] @ ''Output: '' @ out),
              Assigned bid (failure_record bid st out)]"
      by blast
    show ?thesis
      using s' r run_step_Some_Cmd[OF r]
      by (intro exI[of _ "[(Cmd st, Some (out, Some e))]"]) auto
  next
    fix out w'
    assume r: "run_step run (world s) st = Some (out, None, w')"
    from loop_body_ok[OF r, of bid] obtain s1 where
      s1: "loop_body run st bid s = (None, s1)" "world s1 = w'"
        "events s1 = events s @ [Printed (''Executing step: '' @ Name st),
              Ran (Cmd st) (Some (out, None)),
              Printed (''Output of step '' @ Name st @ '': '' @ out),
              Assigned bid (progress_record bid st)]"
      by blast
    let ?R = "ExecutePipeline run steps bid s1"
    from Cons.IH[of s1] obtain rs where
      1: "runs_of (events (snd ?R)) = runs_of (events s1) @ rs" and
      2: "length rs \<le> length steps" and
      3: "map fst rs = map Cmd (take (length rs) steps)" and
      4: "list_all exited_ok (butlast rs)" and
      5: "\<forall>i<length rs. Cmd (steps ! i) \<noteq> [] \<and>
           (\<exists>w. succeed_all run (world s1) (take i steps) = Some w \<and>
                snd (rs ! i) = map_option (\<lambda>(out, err, w'). (out, err)) (run_step run w (steps ! i)))" and
      6: "length rs < length steps \<longrightarrow>
           (rs \<noteq> [] \<and> \<not> exited_ok (last rs)) \<or> Cmd (steps ! length rs) = []" and
      7: "fst ?R = Returned None \<longleftrightarrow> length rs = length steps \<and> list_all exited_ok rs" and
      8: "fst ?R = Panicked \<longleftrightarrow> length rs < length steps \<and> list_all exited_ok rs" and
      9: "fst ?R = Blocked \<longleftrightarrow> rs \<noteq> [] \<and> snd (last rs) = None" and
      10: "\<forall>e. fst ?R = Returned (Some e) \<longleftrightarrow> rs \<noteq> [] \<and> (\<exists>out. snd (last rs) = Some (out, Some e))"
      by blast
    let ?r = "(Cmd st, Some (out, None :: error option))"
    let ?rs = "?r # rs"
    have ep: "ExecutePipeline run (st # steps) bid s = ?R" using s1(1) by simp
    have a1: "runs_of (events (snd ?R)) = runs_of (events s) @ ?rs" using 1 s1(3) by simp
    have a2: "length ?rs \<le> length (st # steps)" using 2 by simp
    have a3: "map fst ?rs = map Cmd (take (length ?rs) (st # steps))" using 3 by simp
    have a4: "list_all exited_ok (butlast ?rs)" using 4 by simp
    have a5: "\<forall>i<length ?rs. Cmd ((st # steps) ! i) \<noteq> [] \<and>
           (\<exists>w. succeed_all run (world s) (take i (st # steps)) = Some w \<and>
                snd (?rs ! i) = map_option (\<lambda>(out, err, w'). (out, err)) (run_step run w ((st # steps) ! i)))"
    proof (intro allI impI)
      fix i assume i: "i < length ?rs"
      show "Cmd ((st # steps) ! i) \<noteq> [] \<and>
           (\<exists>w. succeed_all run (world s) (take i (st # steps)) = Some w \<and>
                snd (?rs ! i) = map_option (\<lambda>(out, err, w'). (out, err)) (run_step run w ((st # steps) ! i)))"
      proof (cases i)
        case 0
        then show ?thesis using r run_step_Some_Cmd[OF r] by simp
      next
        case (Suc j)
        then have "j < length rs" using i by simp
        with 5 obtain w where "Cmd (steps ! j) \<noteq> []"
          "succeed_all run (world s1) (take j steps) = Some w"
          "snd (rs ! j) = map_option (\<lambda>(out, err, w'). (out, err)) (run_step run w (steps ! j))"
          by blast
        then show ?thesis using Suc r s1(2) by simp
      qed
    qed
    have a6: "length ?rs < length (st # steps) \<longrightarrow>
           (?rs \<noteq> [] \<and> \<not> exited_ok (last ?rs)) \<or> Cmd ((st # steps) ! length ?rs) = []"
      using 6 by auto
    have a7: "fst ?R = Returned None \<longleftrightarrow> length ?rs = length (st # steps) \<and> list_all exited_ok ?rs"
      using 7 by simp
    have a8: "fst ?R = Panicked \<longleftrightarrow> length ?rs < length (st # steps) \<and> list_all exited_ok ?rs"
      using 8 by simp
    have a9: "fst ?R = Blocked \<longleftrightarrow> ?rs \<noteq> [] \<and> snd (last ?rs) = None"
      using 9 by simp
    have a10: "\<forall>e. fst ?R = Returned (Some e) \<longleftrightarrow>
        ?rs \<noteq> [] \<and> (\<exists>out. snd (last ?rs) = Some (out, Some e))"
      using 10 by simp
    show ?thesis
      unfolding ep
      by (rule exI[of _ ?rs]) (intro conjI a1 a2 a3 a4 a5 a6 a7 a8 a9 a10)
  qed
qed

lemma EP_returns:
  assumes "\<forall>step\<in>set steps. \<forall>w. run_step run w step \<noteq> None"
  shows "\<exists>err. fst (ExecutePipeline run steps bid s) = Returned err"
  using assms
proof (induction steps arbitrary: s)
  case Nil
  then show ?case by simp
next
  case (Cons st steps)
  have st: "run_step run (world s) st \<noteq> None" using Cons.prems by simp
  show ?case
  proof (rule loop_body_cases[where step=st and run=run and s=s and bid=bid])
    assume "Cmd st = []"
    then show ?thesis using st by (simp add: run_step_def)
  next
    fix name args
    assume "Cmd st = name # args" "run (world s) name args = None"
    then show ?thesis using st by (simp add: run_step_def)
  next
    fix out e w'
    assume "run_step run (world s) st = Some (out, Some e, w')"
    from loop_body_failed[OF this, of bid] show ?thesis by auto
  next
    fix out w'
    assume "run_step run (world s) st = Some (out, None, w')"
    from loop_body_ok[OF this, of bid] obtain s1 where "loop_body run st bid s = (None, s1)" by blast
    then show ?thesis using Cons.IH[of s1] Cons.prems by simp
  qed
qed

lemma EP_no_panic:
  assumes "\<forall>step\<in>set steps. Cmd step \<noteq> []"
  shows "fst (ExecutePipeline run steps bid s) \<noteq> Panicked"
  using assms
proof (induction steps arbitrary: s)
  case Nil
  then show ?case by simp
next
  case (Cons st steps)
  show ?case
  proof (rule loop_body_cases[where step=st and run=run and s=s and bid=bid])
    assume "Cmd st = []"
    then show ?thesis using Cons.prems by simp
  next
    fix name args
    assume "Cmd st = name # args" "run (world s) name args = None" and
      "loop_body run st bid s = (Some Blocked, emit (Ran (Cmd st) None) (log_Printf (''Executing step: '' @ Name st) s))"
    then show ?thesis by simp
  next
    fix out e w'
    assume "run_step run (world s) st = Some (out, Some e, w')"
    from loop_body_failed[OF this, of bid] show ?thesis by auto
  next
    fix out w'
    assume "run_step run (world s) st = Some (out, None, w')"
    from loop_body_ok[OF this, of bid] obtain s1 where "loop_body run st bid s = (None, s1)" by blast
    then show ?thesis using Cons.IH[of s1] Cons.prems by simp
  qed
qed

lemma EP_panics_when_all_exit_ok:
  assumes "\<exists>step\<in>set steps. Cmd step = []"
  shows "fst (ExecutePipeline (\<lambda>w name args. Some ([], None, w)) steps bid s) = Panicked"
  using assms
proof (induction steps arbitrary: s)
  case Nil
  then show ?case by simp
next
  case (Cons st steps)
  show ?case
  proof (cases "Cmd st")
    case Nil
    then show ?thesis by (simp add: loop_body_def)
  next
    case (Cons name args)
    then have "run_step (\<lambda>w name args. Some ([], None, w)) (world s) st = Some ([], None, world s)"
      by (simp add: run_step_def)
    from loop_body_ok[OF this, of bid] obtain s1 where
      "loop_body (\<lambda>w name args. Some ([], None, w)) st bid s = (None, s1)" by blast
    moreover have "\<exists>step\<in>set steps. Cmd step = []" using Cons.prems Cons by auto
    ultimately show ?thesis using Cons.IH[of s1] by simp
  qed
qed

lemma EP_panics_at:
  assumes k: "k < length steps" and c: "Cmd (steps ! k) = []"
    and ok: "succeed_all run (world s) (take k steps) \<noteq> None"
  shows "fst (ExecutePipeline run steps bid s) = Panicked"
proof -
  from ok obtain w' where "succeed_all run (world s) (take k steps) = Some w'" by auto
  from EP_success[OF this, of bid] obtain s1 where
    s1: "ExecutePipeline run (take k steps) bid s = (Returned None, s1)" by blast
  have split: "steps = take k steps @ (steps ! k # drop (Suc k) steps)"
    by (rule id_take_nth_drop[OF k])
  have "ExecutePipeline run steps bid s =
        ExecutePipeline run (take k steps @ (steps ! k # drop (Suc k) steps)) bid s"
    by (rule arg_cong[OF split, of "\<lambda>xs. ExecutePipeline run xs bid s"])
  also have "\<dots> = ExecutePipeline run (steps ! k # drop (Suc k) steps) bid s1"
    by (simp only: EP_append s1) simp
  finally show ?thesis using c by (simp add: loop_body_def)
qed

lemma EP_panicked_reached:
  assumes "fst (ExecutePipeline run steps bid s) = Panicked"
  shows "\<exists>k<length steps. Cmd (steps ! k) = [] \<and> succeed_all run (world s) (take k steps) \<noteq> None"
  using assms
proof (induction steps arbitrary: s)
  case Nil
  then show ?case by simp
next
  case (Cons st steps)
  show ?case
  proof (rule loop_body_cases[where step=st and run=run and s=s and bid=bid])
    assume "Cmd st = []"
    then show ?thesis by (intro exI[of _ 0]) simp
  next
    fix name args
    assume "Cmd st = name # args" "run (world s) name args = None" and
      "loop_body run st bid s = (Some Blocked, emit (Ran (Cmd st) None) (log_Printf (''Executing step: '' @ Name st) s))"
    then show ?thesis using Cons.prems by simp
  next
    fix out e w'
    assume "run_step run (world s) st = Some (out, Some e, w')"
    from loop_body_failed[OF this, of bid] show ?thesis using Cons.prems by auto
  next
    fix out w'
    assume r: "run_step run (world s) st = Some (out, None, w')"
    from loop_body_ok[OF r, of bid] obtain s1 where
      s1: "loop_body run st bid s = (None, s1)" "world s1 = w'" by blast
    then have "fst (ExecutePipeline run steps bid s1) = Panicked" using Cons.prems by simp
    from Cons.IH[OF this] obtain k where
      k: "k < length steps" "Cmd (steps ! k) = []" "succeed_all run (world s1) (take k steps) \<noteq> None"
      by blast
    show ?thesis
      using k r s1(2) by (intro exI[of _ "Suc k"]) simp
  qed
qed

subsection \<open>The handler, the goroutine and a whole build\<close>

lemma triggerBuild_Inr:
  "triggerBuild (Inr config) uuid s =
     (\<lparr>code = 200, body = JSON_Object [(''id'', uuid), (''message'', ''Build triggered'')]\<rparr>,
      Some (uuid, Pipeline config),
      assign uuid \<lparr>ID = uuid, Status = ''In Progress'', Logs = ''''\<rparr> (log_Println ''Triggering build...'' s))"
  by (simp add: triggerBuild_def Let_def)

lemma triggerBuild_Inl:
  "triggerBuild (Inl e) uuid s =
     (\<lparr>code = 500, body = Plain ''Failed to load pipeline configuration''\<rparr>, None,
      log_Println ''Triggering build...'' s)"
  by (simp add: triggerBuild_def Let_def)

lemma build_goroutine_Returned:
  "ExecutePipeline run steps bid s = (Returned err, s') \<Longrightarrow>
     build_goroutine run steps bid s = (Returned (), goroutine_finish bid err s')"
  by (simp add: build_goroutine_def)

lemma run_build_unfold:
  "run_build run config uuid s =
     build_goroutine run (Pipeline config) uuid
       (assign uuid \<lparr>ID = uuid, Status = ''In Progress'', Logs = []\<rparr>
          (log_Println ''Triggering build...'' s))"
  by (simp add: run_build_def triggerBuild_Inr)

lemma run_build_fails_at:
  assumes "k < length (Pipeline config)"
    and "succeed_all run (world s) (take k (Pipeline config)) = Some w1"
    and "run_step run w1 (Pipeline config ! k) = Some (out, Some e, w2)"
  shows "map Status (writes_to uuid (events (snd (run_build run config uuid s)))) =
     map Status (writes_to uuid (events s)) @ replicate (Suc k) ''In Progress'' @ [''Failed'', ''Failed'']"
proof -
  let ?r0 = "\<lparr>ID = uuid, Status = ''In Progress'', Logs = []\<rparr>"
  let ?s1 = "assign uuid ?r0 (log_Println ''Triggering build...'' s)"
  have ok: "succeed_all run (world ?s1) (take k (Pipeline config)) = Some w1" using assms(2) by simp
  from EP_fails_at[OF assms(1) ok assms(3), of uuid] obtain s2 where
    s2: "ExecutePipeline run (Pipeline config) uuid ?s1 = (Returned (Some e), s2)"
     "writes_to uuid (events s2) = writes_to uuid (events ?s1) @
        map (progress_record uuid) (take k (Pipeline config)) @ [failure_record uuid (Pipeline config ! k) out]"
    by blast
  have "run_build run config uuid s = (Returned (), goroutine_finish uuid (Some e) s2)"
    using build_goroutine_Returned[OF s2(1)] by (simp add: run_build_unfold)
  moreover have "map (Status \<circ> progress_record uuid) (take k (Pipeline config)) = replicate k ''In Progress''"
    using assms(1) by (simp add: map_replicate_const progress_record_def comp_def min_def)
  ultimately show ?thesis using s2(2) by (simp add: failure_record_def)
qed

subsection \<open>Phases\<close>

lemma phase_step_absorbing:
  assumes "successively phase_step ps" "i \<le> j" "j < length ps"
    "ps ! i = ''Success'' \<or> ps ! i = ''Failed''"
  shows "ps ! j = ps ! i"
proof (cases "i = j")
  case True
  then show ?thesis by simp
next
  case False
  let ?Q = "\<lambda>p q. (p = ''Success'' \<or> p = ''Failed'') \<longrightarrow> q = p"
  have "successively ?Q ps"
    by (rule successively_mono[OF assms(1)]) (auto simp: phase_step_def)
  moreover have "transp ?Q" by (auto simp: transp_def)
  ultimately have "sorted_wrt ?Q ps" by (simp add: successively_conv_sorted_wrt)
  moreover have "i < j" using False assms(2) by simp
  ultimately have "?Q (ps ! i) (ps ! j)"
    using assms(3) sorted_wrt_iff_nth_less[of ?Q ps] by blast
  then show ?thesis using assms(4) by simp
qed

lemma progressing_snoc: "progressing ps \<Longrightarrow> progressing (ps @ [''In Progress''])"
  by (simp add: progressing_def)

lemma progressing_successively:
  assumes "progressing ps"
  shows "successively phase_step ps \<and> last ps = ''In Progress''"
  using assms unfolding progressing_def
  by (induction ps rule: induct_list012) (auto simp: phase_step_def)

lemma progressing_hd: "progressing ps \<Longrightarrow> hd ps = ''In Progress''"
  by (cases ps) (simp_all add: progressing_def)

lemma done_shape_successively: "done_shape ps \<Longrightarrow> successively phase_step ps"
  using progressing_successively
  by (auto simp: done_shape_def successively_append_iff phase_step_def)

lemma live_shape_successively: "live_shape p ps \<Longrightarrow> successively phase_step ps"
proof (cases p)
  case (Looping steps)
  assume "live_shape p ps"
  then show ?thesis using Looping progressing_successively by (simp add: live_shape_def)
next
  case (Finishing err)
  assume a: "live_shape p ps"
  show ?thesis
  proof (cases err)
    case None
    then show ?thesis using a Finishing progressing_successively by (simp add: live_shape_def)
  next
    case (Some e)
    with a Finishing have ps: "ps \<noteq> []" "last ps = ''Failed''" "progressing (butlast ps)"
      by (simp_all add: live_shape_def)
    then have "ps = butlast ps @ [''Failed'']" by (metis append_butlast_last_id)
    moreover have "successively phase_step (butlast ps @ [''Failed''])"
      using progressing_successively[OF ps(3)]
      by (auto simp: successively_append_iff phase_step_def)
    ultimately show ?thesis by simp
  qed
qed

lemma done_shape_hd: "done_shape ps \<Longrightarrow> hd ps = ''In Progress'' \<and> ps \<noteq> []"
  by (auto simp: done_shape_def progressing_hd progressing_def hd_append)

lemma live_shape_hd:
  assumes "live_shape p ps"
  shows "hd ps = ''In Progress'' \<and> ps \<noteq> []"
proof (cases "\<exists>e. p = Finishing (Some e)")
  case True
  with assms have ps: "ps \<noteq> []" "progressing (butlast ps)" by (auto simp: live_shape_def)
  then have "butlast ps \<noteq> []" by (simp add: progressing_def)
  then have "hd ps = hd (butlast ps)" using ps(1) by (metis append_butlast_last_id hd_append2)
  then show ?thesis using ps progressing_hd by simp
next
  case False
  then have "progressing ps" using assms
    by (cases p) (auto simp: live_shape_def split: option.splits)
  then show ?thesis using progressing_hd by (simp add: progressing_def)
qed

subsection \<open>One scheduling slice\<close>

lemma goroutine_step_dom:
  assumes b: "bid \<in> dom (buildStatuses s)"
  shows "dom (buildStatuses (snd (goroutine_step run bid p s))) = dom (buildStatuses s)"
proof (cases p)
  case (Looping steps)
  show ?thesis
  proof (cases steps)
    case Nil
    then show ?thesis using Looping by simp
  next
    case (Cons st rest)
    obtain c s' where lb: "loop_body run st bid s = (c, s')" by (cases "loop_body run st bid s")
    from loop_body_dom[OF b, of run st] lb have "dom (buildStatuses s') = dom (buildStatuses s)" by simp
    then show ?thesis using Looping Cons lb
      by (auto split: option.splits result.splits)
  qed
next
  case (Finishing err)
  show ?thesis using b Finishing by (auto simp: goroutine_finish_def Let_def)
qed

lemma goroutine_step_writes_other:
  assumes "k \<noteq> bid"
  shows "writes_to k (events (snd (goroutine_step run bid p s))) = writes_to k (events s)"
proof (cases p)
  case (Looping steps)
  show ?thesis
  proof (cases steps)
    case Nil
    then show ?thesis using Looping by simp
  next
    case (Cons st rest)
    obtain c s' where lb: "loop_body run st bid s = (c, s')" by (cases "loop_body run st bid s")
    from loop_body_writes_other[OF assms, of run st s] lb
    have "writes_to k (events s') = writes_to k (events s)" by simp
    then show ?thesis using Looping Cons lb by (auto split: option.splits result.splits)
  qed
next
  case (Finishing err)
  then show ?thesis using assms by simp
qed

lemma goroutine_step_shape:
  assumes "live_shape p (map Status (writes_to bid (events s)))"
  shows "case goroutine_step run bid p s of
           (Returned (Some p'), s') \<Rightarrow> live_shape p' (map Status (writes_to bid (events s')))
         | (Returned None, s') \<Rightarrow> done_shape (map Status (writes_to bid (events s')))
         | (Blocked, s') \<Rightarrow> done_shape (map Status (writes_to bid (events s')))
         | (Panicked, s') \<Rightarrow> live_shape p (map Status (writes_to bid (events s')))"
proof (cases p)
  case (Looping steps)
  with assms have pr: "progressing (map Status (writes_to bid (events s)))"
    by (simp add: live_shape_def)
  show ?thesis
  proof (cases steps)
    case Nil
    then show ?thesis using Looping pr by (simp add: live_shape_def)
  next
    case (Cons st rest)
    show ?thesis
    proof (rule loop_body_cases[where step=st and run=run and s=s and bid=bid])
      assume "Cmd st = []"
        "loop_body run st bid s = (Some Panicked, log_Printf (''Executing step: '' @ Name st) s)"
      then show ?thesis using Looping Cons pr by (simp add: live_shape_def)
    next
      fix name args
      assume "Cmd st = name # args" "run (world s) name args = None"
        "loop_body run st bid s = (Some Blocked, emit (Ran (Cmd st) None) (log_Printf (''Executing step: '' @ Name st) s))"
      then show ?thesis using Looping Cons pr by (simp add: done_shape_def)
    next
      fix out w'
      assume "run_step run (world s) st = Some (out, None, w')"
      from loop_body_ok[OF this, of bid] show ?thesis
        using Looping Cons progressing_snoc[OF pr] by (auto simp: live_shape_def progress_record_def)
    next
      fix out e w'
      assume "run_step run (world s) st = Some (out, Some e, w')"
      from loop_body_failed[OF this, of bid] show ?thesis
        using Looping Cons pr by (auto simp: live_shape_def failure_record_def)
    qed
  qed
next
  case (Finishing err)
  show ?thesis
  proof (cases err)
    case None
    with assms Finishing have "progressing (map Status (writes_to bid (events s)))"
      by (simp add: live_shape_def)
    then show ?thesis using Finishing None by (auto simp: done_shape_def)
  next
    case (Some e)
    let ?ps = "map Status (writes_to bid (events s))"
    from assms Finishing Some have ps: "?ps \<noteq> []" "last ?ps = ''Failed''" "progressing (butlast ?ps)"
      by (simp_all add: live_shape_def)
    then have "?ps = butlast ?ps @ [''Failed'']"
      by (metis append_butlast_last_id)
    then have "?ps @ [''Failed''] = butlast ?ps @ [''Failed'', ''Failed'']" by simp
    then show ?thesis using Finishing Some ps(3) by (auto simp: done_shape_def)
  qed
qed

lemma sys_advance_live:
  assumes "i < length (live \<sigma>)" "\<forall>g \<in> set (live \<sigma>). fst g \<in> ids"
  shows "\<forall>g \<in> set (live (sys_advance run i \<sigma>)). fst g \<in> ids"
proof -
  obtain bid p where g: "live \<sigma> ! i = (bid, p)" by (cases "live \<sigma> ! i")
  have bid: "bid \<in> ids" using assms g by (metis fst_conv nth_mem)
  obtain r s' where st: "goroutine_step run bid p (srv \<sigma>) = (r, s')"
    by (cases "goroutine_step run bid p (srv \<sigma>)")
  have sub: "set (take i (live \<sigma>) @ drop (Suc i) (live \<sigma>)) \<subseteq> set (live \<sigma>)"
    using set_take_subset set_drop_subset by fastforce
  show ?thesis
  proof (cases r)
    case (Returned q)
    show ?thesis
    proof (cases q)
      case None
      then show ?thesis using Returned g st assms(2) sub by (auto simp: sys_advance_def)
    next
      case (Some p')
      have "set ((live \<sigma>)[i := (bid, p')]) \<subseteq> insert (bid, p') (set (live \<sigma>))"
        by (rule set_update_subset_insert)
      then show ?thesis using Returned Some g st assms(2) bid by (auto simp: sys_advance_def)
    qed
  next
    case Panicked
    then show ?thesis using g st assms(2) by (auto simp: sys_advance_def)
  next
    case Blocked
    then show ?thesis using g st assms(2) sub by (auto simp: sys_advance_def)
  qed
qed

lemma sys_advance_srv:
  "i < length (live \<sigma>) \<Longrightarrow> live \<sigma> ! i = (bid, p) \<Longrightarrow>
     srv (sys_advance run i \<sigma>) = snd (goroutine_step run bid p (srv \<sigma>))"
  by (cases "goroutine_step run bid p (srv \<sigma>)")
     (auto simp: sys_advance_def split: result.splits option.splits)

lemma sys_advance_split:
  assumes "i < length (live \<sigma>)"
  shows "\<exists>xs ys bid p. live \<sigma> = xs @ (bid, p) # ys \<and>
     sys_advance run i \<sigma> =
       (case goroutine_step run bid p (srv \<sigma>) of
          (Returned (Some p'), s') \<Rightarrow> \<sigma>\<lparr>srv := s', live := xs @ (bid, p') # ys\<rparr>
        | (Returned None, s') \<Rightarrow> \<sigma>\<lparr>srv := s', live := xs @ ys\<rparr>
        | (Blocked, s') \<Rightarrow> \<sigma>\<lparr>srv := s', live := xs @ ys\<rparr>
        | (Panicked, s') \<Rightarrow> \<sigma>\<lparr>srv := s', ended := True\<rparr>)"
proof -
  obtain bid p where g: "live \<sigma> ! i = (bid, p)" by (cases "live \<sigma> ! i")
  let ?xs = "take i (live \<sigma>)" and ?ys = "drop (Suc i) (live \<sigma>)"
  have l: "live \<sigma> = ?xs @ (bid, p) # ?ys"
    using id_take_nth_drop[OF assms] g by simp
  have u: "(live \<sigma>)[i := (bid, p')] = ?xs @ (bid, p') # ?ys" for p'
    using assms by (simp add: upd_conv_take_nth_drop)
  have "sys_advance run i \<sigma> =
       (case goroutine_step run bid p (srv \<sigma>) of
          (Returned (Some p'), s') \<Rightarrow> \<sigma>\<lparr>srv := s', live := ?xs @ (bid, p') # ?ys\<rparr>
        | (Returned None, s') \<Rightarrow> \<sigma>\<lparr>srv := s', live := ?xs @ ?ys\<rparr>
        | (Blocked, s') \<Rightarrow> \<sigma>\<lparr>srv := s', live := ?xs @ ?ys\<rparr>
        | (Panicked, s') \<Rightarrow> \<sigma>\<lparr>srv := s', ended := True\<rparr>)"
    using assms g u by (simp add: sys_advance_def split: prod.splits result.splits option.splits)
  with l show ?thesis by blast
qed

lemma sys_advance_last:
  assumes "live \<sigma> = gs @ [(bid, p)]"
  shows "sys_advance run (length gs) \<sigma> =
       (case goroutine_step run bid p (srv \<sigma>) of
          (Returned (Some p'), s') \<Rightarrow> \<sigma>\<lparr>srv := s', live := gs @ [(bid, p')]\<rparr>
        | (Returned None, s') \<Rightarrow> \<sigma>\<lparr>srv := s', live := gs\<rparr>
        | (Blocked, s') \<Rightarrow> \<sigma>\<lparr>srv := s', live := gs\<rparr>
        | (Panicked, s') \<Rightarrow> \<sigma>\<lparr>srv := s', ended := True\<rparr>)"
  using assms by (simp add: sys_advance_def split: prod.splits result.splits option.splits)

subsection \<open>The reachable states\<close>

lemma reach_invariant:
  "reach run w \<sigma> ids \<Longrightarrow>
     dom (buildStatuses (srv \<sigma>)) = set ids \<and> (\<forall>g \<in> set (live \<sigma>). fst g \<in> set ids)"
proof (induction rule: reach.induct)
  case reach_boot
  then show ?case by (simp add: boot_def init_server_def)
next
  case (reach_trigger_failed \<sigma> ids e uuid)
  then show ?case by (simp add: sys_trigger_def triggerBuild_Inl)
next
  case (reach_trigger \<sigma> ids config uuid)
  then have d: "dom (buildStatuses (srv \<sigma>)) = set ids"
    and l: "\<forall>g \<in> set (live \<sigma>). fst g \<in> set ids"
    by simp_all
  let ?\<sigma>' = "snd (sys_trigger (Inr config) uuid \<sigma>)"
  have "buildStatuses (srv ?\<sigma>') =
      (buildStatuses (srv \<sigma>))(uuid \<mapsto> \<lparr>ID = uuid, Status = ''In Progress'', Logs = []\<rparr>)"
    by (simp add: sys_trigger_def triggerBuild_Inr)
  then have "dom (buildStatuses (srv ?\<sigma>')) = insert uuid (dom (buildStatuses (srv \<sigma>)))"
    by (simp only: dom_fun_upd) simp
  moreover have "live ?\<sigma>' = live \<sigma> @ [(uuid, Looping (Pipeline config))]"
    by (simp add: sys_trigger_def triggerBuild_Inr)
  ultimately show ?case using d l by simp
next
  case (reach_advance \<sigma> ids i)
  obtain bid p where g: "live \<sigma> ! i = (bid, p)" by (cases "live \<sigma> ! i")
  have bid: "bid \<in> set ids" using reach_advance g by (metis fst_conv nth_mem)
  have "dom (buildStatuses (srv (sys_advance run i \<sigma>))) = set ids"
    using sys_advance_srv[OF reach_advance.hyps(3) g] goroutine_step_dom[of bid "srv \<sigma>" run p] bid reach_advance.IH
    by simp
  moreover have "\<forall>g \<in> set (live (sys_advance run i \<sigma>)). fst g \<in> set ids"
    using sys_advance_live reach_advance by blast
  ultimately show ?case by simp
qed

lemma phases_inv_boot: "phases_inv (boot w) []"
  by (simp add: phases_inv_def phases_def boot_def init_server_def)

lemma phases_inv_trigger_failed:
  assumes "phases_inv \<sigma> ids"
  shows "phases_inv (snd (sys_trigger (Inl e) uuid \<sigma>)) ids"
proof -
  have "snd (sys_trigger (Inl e) uuid \<sigma>) = \<sigma>\<lparr>srv := log_Println ''Triggering build...'' (srv \<sigma>)\<rparr>"
    by (simp add: sys_trigger_def triggerBuild_Inl)
  then show ?thesis using assms by (simp add: phases_inv_def phases_def)
qed

lemma phases_inv_trigger:
  assumes inv: "phases_inv \<sigma> ids" and fresh: "uuid \<notin> set ids"
  shows "phases_inv (snd (sys_trigger (Inr config) uuid \<sigma>)) (ids @ [uuid])"
proof -
  let ?r0 = "\<lparr>ID = uuid, Status = ''In Progress'', Logs = []\<rparr>"
  let ?\<sigma>' = "\<sigma>\<lparr>srv := assign uuid ?r0 (log_Println ''Triggering build...'' (srv \<sigma>)),
               live := live \<sigma> @ [(uuid, Looping (Pipeline config))]\<rparr>"
  have \<sigma>': "snd (sys_trigger (Inr config) uuid \<sigma>) = ?\<sigma>'"
    by (simp add: sys_trigger_def triggerBuild_Inr)
  have new: "phases uuid ?\<sigma>' = [''In Progress'']"
    using inv fresh by (simp add: phases_inv_def phases_def)
  have old: "phases k ?\<sigma>' = phases k \<sigma>" if "k \<noteq> uuid" for k
    using that by (simp add: phases_def)
  have notlive: "uuid \<notin> fst ` set (live \<sigma>)"
    using inv fresh by (auto simp: phases_inv_def)
  show ?thesis
    unfolding \<sigma>' phases_inv_def
  proof (intro conjI allI impI)
    show "distinct (map fst (live ?\<sigma>'))"
      using inv notlive by (simp add: phases_inv_def)
    show "fst ` set (live ?\<sigma>') \<subseteq> set (ids @ [uuid])"
      using inv by (auto simp: phases_inv_def)
  next
    fix k assume "k \<notin> set (ids @ [uuid])"
    then have "k \<noteq> uuid" "k \<notin> set ids" by auto
    then show "phases k ?\<sigma>' = []" using old[of k] inv by (simp add: phases_inv_def)
  next
    fix k q assume "(k, q) \<in> set (live ?\<sigma>')"
    then consider "(k, q) = (uuid, Looping (Pipeline config))" | "(k, q) \<in> set (live \<sigma>)" by auto
    then show "live_shape q (phases k ?\<sigma>')"
    proof cases
      case 1
      then show ?thesis using new by (simp add: live_shape_def progressing_def)
    next
      case 2
      then have "k \<noteq> uuid" using notlive by force
      then show ?thesis using old[of k] inv 2 by (simp add: phases_inv_def)
    qed
  next
    fix k assume a: "k \<in> set (ids @ [uuid]) \<and> k \<notin> fst ` set (live ?\<sigma>')"
    then have "k \<noteq> uuid" "k \<in> set ids" "k \<notin> fst ` set (live \<sigma>)" by auto
    then show "done_shape (phases k ?\<sigma>')" using old[of k] inv by (simp add: phases_inv_def)
  qed
qed

lemma phases_inv_advance:
  assumes inv: "phases_inv \<sigma> ids" and i: "i < length (live \<sigma>)"
  shows "phases_inv (sys_advance run i \<sigma>) ids"
proof -
  from sys_advance_split[OF i, of run] obtain xs ys bid p where
    l: "live \<sigma> = xs @ (bid, p) # ys" and
    adv: "sys_advance run i \<sigma> =
       (case goroutine_step run bid p (srv \<sigma>) of
          (Returned (Some p'), s') \<Rightarrow> \<sigma>\<lparr>srv := s', live := xs @ (bid, p') # ys\<rparr>
        | (Returned None, s') \<Rightarrow> \<sigma>\<lparr>srv := s', live := xs @ ys\<rparr>
        | (Blocked, s') \<Rightarrow> \<sigma>\<lparr>srv := s', live := xs @ ys\<rparr>
        | (Panicked, s') \<Rightarrow> \<sigma>\<lparr>srv := s', ended := True\<rparr>)"
    by blast
  obtain r s' where st: "goroutine_step run bid p (srv \<sigma>) = (r, s')"
    by (cases "goroutine_step run bid p (srv \<sigma>)")
  from inv l have d: "distinct (map fst xs)" "distinct (map fst ys)"
    "bid \<notin> fst ` set xs" "bid \<notin> fst ` set ys" "fst ` set xs \<inter> fst ` set ys = {}"
    and sub: "bid \<in> set ids" "fst ` set xs \<subseteq> set ids" "fst ` set ys \<subseteq> set ids"
    by (auto simp: phases_inv_def)
  from inv l have shape_p: "live_shape p (map Status (writes_to bid (events (srv \<sigma>))))"
    by (simp add: phases_inv_def phases_def)
  have other: "map Status (writes_to k (events s')) = phases k \<sigma>" if "k \<noteq> bid" for k
    using goroutine_step_writes_other[OF that, of run p "srv \<sigma>"] st by (simp add: phases_def)
  from inv have unborn: "phases k \<sigma> = []" if "k \<notin> set ids" for k
    using that by (simp add: phases_inv_def)
  from inv l have others_live: "live_shape q (phases k \<sigma>)" if "(k, q) \<in> set xs \<union> set ys" for k q
    using that by (auto simp: phases_inv_def)
  from inv l have others_done: "done_shape (phases k \<sigma>)"
    if "k \<in> set ids" "k \<noteq> bid" "k \<notin> fst ` set xs" "k \<notin> fst ` set ys" for k
    using that by (auto simp: phases_inv_def)
  have ne: "k \<noteq> bid" if "(k, q) \<in> set xs \<union> set ys" for k q
    using that d(3,4) by force
  note step = goroutine_step_shape[OF shape_p, of run, unfolded st]
  show ?thesis
  proof (cases r)
    case (Returned q)
    show ?thesis
    proof (cases q)
      case None
      with Returned st adv have \<sigma>': "sys_advance run i \<sigma> = \<sigma>\<lparr>srv := s', live := xs @ ys\<rparr>" by simp
      from step Returned None have dn: "done_shape (map Status (writes_to bid (events s')))" by simp
      show ?thesis
        unfolding phases_inv_def \<sigma>'
      proof (intro conjI allI impI)
        show "distinct (map fst (live (\<sigma>\<lparr>srv := s', live := xs @ ys\<rparr>)))"
          using d by auto
        show "fst ` set (live (\<sigma>\<lparr>srv := s', live := xs @ ys\<rparr>)) \<subseteq> set ids"
          using sub by auto
      next
        fix k assume "k \<notin> set ids"
        then show "phases k (\<sigma>\<lparr>srv := s', live := xs @ ys\<rparr>) = []"
          using unborn[of k] other[of k] sub(1) by (auto simp: phases_def)
      next
        fix k q assume "(k, q) \<in> set (live (\<sigma>\<lparr>srv := s', live := xs @ ys\<rparr>))"
        then have m: "(k, q) \<in> set xs \<union> set ys" by simp
        from others_live[OF m] other[OF ne[OF m]]
        show "live_shape q (phases k (\<sigma>\<lparr>srv := s', live := xs @ ys\<rparr>))"
          by (simp add: phases_def)
      next
        fix k assume a: "k \<in> set ids \<and> k \<notin> fst ` set (live (\<sigma>\<lparr>srv := s', live := xs @ ys\<rparr>))"
        show "done_shape (phases k (\<sigma>\<lparr>srv := s', live := xs @ ys\<rparr>))"
        proof (cases "k = bid")
          case True
          then show ?thesis using dn by (simp add: phases_def)
        next
          case False
          with a have "done_shape (phases k \<sigma>)" by (intro others_done) auto
          then show ?thesis using other[OF False] by (simp add: phases_def)
        qed
      qed
    next
      case (Some p')
      with Returned st adv have \<sigma>': "sys_advance run i \<sigma> = \<sigma>\<lparr>srv := s', live := xs @ (bid, p') # ys\<rparr>"
        by simp
      from step Returned Some have lv: "live_shape p' (map Status (writes_to bid (events s')))" by simp
      show ?thesis
        unfolding phases_inv_def \<sigma>'
      proof (intro conjI allI impI)
        show "distinct (map fst (live (\<sigma>\<lparr>srv := s', live := xs @ (bid, p') # ys\<rparr>)))"
          using d by auto
        show "fst ` set (live (\<sigma>\<lparr>srv := s', live := xs @ (bid, p') # ys\<rparr>)) \<subseteq> set ids"
          using sub by auto
      next
        fix k assume "k \<notin> set ids"
        then show "phases k (\<sigma>\<lparr>srv := s', live := xs @ (bid, p') # ys\<rparr>) = []"
          using unborn[of k] other[of k] sub(1) by (auto simp: phases_def)
      next
        fix k q assume "(k, q) \<in> set (live (\<sigma>\<lparr>srv := s', live := xs @ (bid, p') # ys\<rparr>))"
        then consider "(k, q) = (bid, p')" | "(k, q) \<in> set xs \<union> set ys" by auto
        then show "live_shape q (phases k (\<sigma>\<lparr>srv := s', live := xs @ (bid, p') # ys\<rparr>))"
        proof cases
          case 1
          then show ?thesis using lv by (simp add: phases_def)
        next
          case 2
          from others_live[OF 2] other[OF ne[OF 2]] show ?thesis by (simp add: phases_def)
        qed
      next
        fix k assume a: "k \<in> set ids \<and> k \<notin> fst ` set (live (\<sigma>\<lparr>srv := s', live := xs @ (bid, p') # ys\<rparr>))"
        then have False: "k \<noteq> bid" by auto
        with a have "done_shape (phases k \<sigma>)" by (intro others_done) auto
        then show "done_shape (phases k (\<sigma>\<lparr>srv := s', live := xs @ (bid, p') # ys\<rparr>))"
          using other[OF False] by (simp add: phases_def)
      qed
    qed
  next
    case Blocked
    with st adv have \<sigma>': "sys_advance run i \<sigma> = \<sigma>\<lparr>srv := s', live := xs @ ys\<rparr>" by simp
    from step Blocked have dn: "done_shape (map Status (writes_to bid (events s')))" by simp
    show ?thesis
      unfolding phases_inv_def \<sigma>'
    proof (intro conjI allI impI)
      show "distinct (map fst (live (\<sigma>\<lparr>srv := s', live := xs @ ys\<rparr>)))"
        using d by auto
      show "fst ` set (live (\<sigma>\<lparr>srv := s', live := xs @ ys\<rparr>)) \<subseteq> set ids"
        using sub by auto
    next
      fix k assume "k \<notin> set ids"
      then show "phases k (\<sigma>\<lparr>srv := s', live := xs @ ys\<rparr>) = []"
        using unborn[of k] other[of k] sub(1) by (auto simp: phases_def)
    next
      fix k q assume "(k, q) \<in> set (live (\<sigma>\<lparr>srv := s', live := xs @ ys\<rparr>))"
      then have m: "(k, q) \<in> set xs \<union> set ys" by simp
      from others_live[OF m] other[OF ne[OF m]]
      show "live_shape q (phases k (\<sigma>\<lparr>srv := s', live := xs @ ys\<rparr>))"
        by (simp add: phases_def)
    next
      fix k assume a: "k \<in> set ids \<and> k \<notin> fst ` set (live (\<sigma>\<lparr>srv := s', live := xs @ ys\<rparr>))"
      show "done_shape (phases k (\<sigma>\<lparr>srv := s', live := xs @ ys\<rparr>))"
      proof (cases "k = bid")
        case True
        then show ?thesis using dn by (simp add: phases_def)
      next
        case False
        with a have "done_shape (phases k \<sigma>)" by (intro others_done) auto
        then show ?thesis using other[OF False] by (simp add: phases_def)
      qed
    qed
  next
    case Panicked
    with st adv have \<sigma>': "sys_advance run i \<sigma> = \<sigma>\<lparr>srv := s', ended := True\<rparr>" by simp
    from step Panicked have lv: "live_shape p (map Status (writes_to bid (events s')))" by simp
    show ?thesis
      unfolding phases_inv_def \<sigma>'
    proof (intro conjI allI impI)
      show "distinct (map fst (live (\<sigma>\<lparr>srv := s', ended := True\<rparr>)))"
        using inv by (simp add: phases_inv_def)
      show "fst ` set (live (\<sigma>\<lparr>srv := s', ended := True\<rparr>)) \<subseteq> set ids"
        using inv by (simp add: phases_inv_def)
    next
      fix k assume "k \<notin> set ids"
      then show "phases k (\<sigma>\<lparr>srv := s', ended := True\<rparr>) = []"
        using unborn[of k] other[of k] sub(1) by (auto simp: phases_def)
    next
      fix k q assume "(k, q) \<in> set (live (\<sigma>\<lparr>srv := s', ended := True\<rparr>))"
      then consider "(k, q) = (bid, p)" | "(k, q) \<in> set xs \<union> set ys" using l by auto
      then show "live_shape q (phases k (\<sigma>\<lparr>srv := s', ended := True\<rparr>))"
      proof cases
        case 1
        then show ?thesis using lv by (simp add: phases_def)
      next
        case 2
        from others_live[OF 2] other[OF ne[OF 2]] show ?thesis by (simp add: phases_def)
      qed
    next
      fix k assume a: "k \<in> set ids \<and> k \<notin> fst ` set (live (\<sigma>\<lparr>srv := s', ended := True\<rparr>))"
      then have False: "k \<noteq> bid" using l by auto
      with a l have "done_shape (phases k \<sigma>)" by (intro others_done) auto
      then show "done_shape (phases k (\<sigma>\<lparr>srv := s', ended := True\<rparr>))"
        using other[OF False] by (simp add: phases_def)
    qed
  qed
qed

lemma reach_phases_inv:
  "reach run w \<sigma> ids \<Longrightarrow> distinct ids \<Longrightarrow> phases_inv \<sigma> ids"
proof (induction rule: reach.induct)
  case reach_boot
  show ?case by (rule phases_inv_boot)
next
  case (reach_trigger_failed \<sigma> ids e uuid)
  then show ?case by (simp add: phases_inv_trigger_failed)
next
  case (reach_trigger \<sigma> ids config uuid)
  then show ?case by (simp add: phases_inv_trigger)
next
  case (reach_advance \<sigma> ids i)
  then show ?case by (simp add: phases_inv_advance)
qed

lemma reach_phases_successively:
  assumes "reach run w \<sigma> ids" "distinct ids"
  shows "successively phase_step (map Status (writes_to bid (events (srv \<sigma>))))"
proof -
  from reach_phases_inv[OF assms] have inv: "phases_inv \<sigma> ids" .
  show ?thesis
  proof (cases "bid \<in> set ids")
    case False
    then show ?thesis using inv by (simp add: phases_inv_def phases_def)
  next
    case True
    show ?thesis
    proof (cases "bid \<in> fst ` set (live \<sigma>)")
      case True
      then obtain p where "(bid, p) \<in> set (live \<sigma>)" by force
      then have "live_shape p (phases bid \<sigma>)" using inv by (simp add: phases_inv_def)
      then show ?thesis using live_shape_successively by (simp add: phases_def)
    next
      case False
      then have "done_shape (phases bid \<sigma>)" using inv \<open>bid \<in> set ids\<close> by (simp add: phases_inv_def)
      then show ?thesis using done_shape_successively by (simp add: phases_def)
    qed
  qed
qed

lemma reach_phases_hd:
  assumes "reach run w \<sigma> ids" "distinct ids" "bid \<in> set ids"
  shows "Status (hd (writes_to bid (events (srv \<sigma>)))) = ''In Progress''"
proof -
  from reach_phases_inv[OF assms(1,2)] have inv: "phases_inv \<sigma> ids" .
  have "hd (phases bid \<sigma>) = ''In Progress'' \<and> phases bid \<sigma> \<noteq> []"
  proof (cases "bid \<in> fst ` set (live \<sigma>)")
    case True
    then obtain p where "(bid, p) \<in> set (live \<sigma>)" by force
    then have "live_shape p (phases bid \<sigma>)" using inv by (simp add: phases_inv_def)
    then show ?thesis by (rule live_shape_hd)
  next
    case False
    then have "done_shape (phases bid \<sigma>)" using inv assms(3) by (simp add: phases_inv_def)
    then show ?thesis by (rule done_shape_hd)
  qed
  then show ?thesis by (cases "writes_to bid (events (srv \<sigma>))") (simp_all add: phases_def)
qed

lemma reach_finishing:
  assumes r: "reach run w \<sigma> ids" and a: "\<not> ended \<sigma>" and l: "live \<sigma> = gs @ [(bid, Finishing err)]"
  shows "reach run w (\<sigma>\<lparr>srv := goroutine_finish bid err (srv \<sigma>), live := gs\<rparr>) ids"
proof -
  have "reach run w (sys_advance run (length gs) \<sigma>) ids"
    using r a l by (intro reach_advance) simp_all
  then show ?thesis by (simp add: sys_advance_last[OF l])
qed

lemma reach_build_goroutine:
  assumes "reach run w \<sigma> ids" "\<not> ended \<sigma>" "live \<sigma> = gs @ [(bid, Looping steps)]"
  shows "\<exists>\<sigma>'. reach run w \<sigma>' ids \<and> srv \<sigma>' = snd (build_goroutine run steps bid (srv \<sigma>))"
  using assms
proof (induction steps arbitrary: \<sigma>)
  case Nil
  let ?\<sigma>1 = "\<sigma>\<lparr>srv := srv \<sigma>, live := gs @ [(bid, Finishing None)]\<rparr>"
  have "reach run w (sys_advance run (length gs) \<sigma>) ids"
    using Nil by (intro reach_advance) simp_all
  then have "reach run w ?\<sigma>1 ids"
    by (simp add: sys_advance_last[OF Nil(3)])
  from reach_finishing[OF this, of gs bid None] Nil(2)
  have "reach run w (\<sigma>\<lparr>srv := goroutine_finish bid None (srv \<sigma>), live := gs\<rparr>) ids" by simp
  then show ?case
    by (intro exI[of _ "\<sigma>\<lparr>srv := goroutine_finish bid None (srv \<sigma>), live := gs\<rparr>"])
       (simp add: build_goroutine_def)
next
  case (Cons st steps)
  obtain c s1 where lb: "loop_body run st bid (srv \<sigma>) = (c, s1)"
    by (cases "loop_body run st bid (srv \<sigma>)")
  have adv: "reach run w (sys_advance run (length gs) \<sigma>) ids"
    using Cons.prems by (intro reach_advance) simp_all
  note last = sys_advance_last[OF Cons.prems(3), of run]
  show ?case
  proof (cases c)
    case None
    let ?\<sigma>1 = "\<sigma>\<lparr>srv := s1, live := gs @ [(bid, Looping steps)]\<rparr>"
    have "reach run w ?\<sigma>1 ids" using adv last lb None by simp
    from Cons.IH[OF this] Cons.prems(2) obtain \<sigma>' where
      "reach run w \<sigma>' ids" "srv \<sigma>' = snd (build_goroutine run steps bid s1)" by auto
    then show ?thesis using lb None by (intro exI[of _ \<sigma>']) (simp add: build_goroutine_def)
  next
    case (Some r)
    show ?thesis
    proof (cases r)
      case (Returned err)
      let ?\<sigma>1 = "\<sigma>\<lparr>srv := s1, live := gs @ [(bid, Finishing err)]\<rparr>"
      have "reach run w ?\<sigma>1 ids" using adv last lb Some Returned by simp
      from reach_finishing[OF this, of gs bid err] Cons.prems(2)
      have "reach run w (\<sigma>\<lparr>srv := goroutine_finish bid err s1, live := gs\<rparr>) ids" by simp
      then show ?thesis using lb Some Returned
        by (intro exI[of _ "\<sigma>\<lparr>srv := goroutine_finish bid err s1, live := gs\<rparr>"])
           (simp add: build_goroutine_def)
    next
      case Panicked
      have "reach run w (\<sigma>\<lparr>srv := s1, ended := True\<rparr>) ids" using adv last lb Some Panicked by simp
      then show ?thesis using lb Some Panicked
        by (intro exI[of _ "\<sigma>\<lparr>srv := s1, ended := True\<rparr>"]) (simp add: build_goroutine_def)
    next
      case Blocked
      have "reach run w (\<sigma>\<lparr>srv := s1, live := gs\<rparr>) ids" using adv last lb Some Blocked by simp
      then show ?thesis using lb Some Blocked
        by (intro exI[of _ "\<sigma>\<lparr>srv := s1, live := gs\<rparr>"]) (simp add: build_goroutine_def)
    qed
  qed
qed

lemma reach_run_build:
  assumes "reach run w \<sigma> ids" "\<not> ended \<sigma>"
  shows "\<exists>\<sigma>'. reach run w \<sigma>' (ids @ [uuid]) \<and> srv \<sigma>' = snd (run_build run config uuid (srv \<sigma>))"
proof -
  let ?\<sigma>1 = "snd (sys_trigger (Inr config) uuid \<sigma>)"
  have r1: "reach run w ?\<sigma>1 (ids @ [uuid])" using assms by (rule reach_trigger)
  have e1: "\<not> ended ?\<sigma>1" using assms(2) by (simp add: sys_trigger_def triggerBuild_Inr)
  have l1: "live ?\<sigma>1 = live \<sigma> @ [(uuid, Looping (Pipeline config))]"
    by (simp add: sys_trigger_def triggerBuild_Inr)
  have s1: "srv ?\<sigma>1 = assign uuid \<lparr>ID = uuid, Status = ''In Progress'', Logs = []\<rparr>
          (log_Println ''Triggering build...'' (srv \<sigma>))"
    by (simp add: sys_trigger_def triggerBuild_Inr)
  from reach_build_goroutine[OF r1 e1 l1] show ?thesis
    by (simp add: s1 run_build_unfold)
qed

subsection \<open>Unfolding on concrete inputs\<close>

lemmas eval_defs = run_build_def build_goroutine_def goroutine_finish_def loop_body_def
  triggerBuild_def checkStatus_def init_server_def sample_run_def compile_test_deploy_def
  run_step_def progress_record_def failure_record_def Let_def assign_def emit_def
  log_Printf_def log_Println_def boot_def sys_trigger_def sys_advance_def build_only_def failing_test_def
  lint_only_def after_two_builds_def

section \<open>The claims\<close>

subsection \<open>C1: a pipeline whose step k+1 fails\<close>

text \<open>
  Claim C1 says that the final record of such a build has phase Failed and a log of
  k+1 entries whose last one names step k+1. In the source \<open>Logs\<close> is one string that
  every assignment replaces, and the goroutine's closing assignment comes last: for
  the pipeline compile, test, deploy with a failing test, the final \<open>Logs\<close> is the one
  summary line, and "test" does not occur in it.
\<close>

theorem C1_counterexample:
  "buildStatuses (snd (run_build sample_run \<lparr>Pipeline = compile_test_deploy\<rparr> ''b1'' (init_server 0))) ''b1''
     = Some \<lparr>ID = ''b1'', Status = ''Failed'', Logs = ''Pipeline completed with status: Failed''\<rparr> \<and>
   \<not> sublist ''test'' ''Pipeline completed with status: Failed''"
  by (simp add: eval_defs sublist_Cons_right)

text \<open>
  Claim C1, as the source has it. When steps 1 to k succeed and step k+1 fails,
  \<open>ExecutePipeline\<close> returns that step's error after assigning the build's record
  exactly k+1 times, once for each step it ran and in their order; each assignment
  replaces \<open>Logs\<close> by one entry. The last of them leaves the record with phase
  \<open>Failed\<close> and the entry "Step <name> failed: <output>", in which the name of step
  k+1 occurs. The record still has phase \<open>Failed\<close> when the goroutine has ended.
\<close>

theorem C1_failure_after_k_steps:
  assumes "k < length steps"
    and "succeed_all run (world s) (take k steps) = Some w"
    and "run_step run w (steps ! k) = Some (out, Some e, w')"
  shows "fst (ExecutePipeline run steps bid s) = Returned (Some e) \<and>
     writes_to bid (events (snd (ExecutePipeline run steps bid s))) =
       writes_to bid (events s) @ map (progress_record bid) (take k steps) @
       [failure_record bid (steps ! k) out] \<and>
     buildStatuses (snd (ExecutePipeline run steps bid s)) bid =
       Some \<lparr>ID = bid, Status = ''Failed'',
             Logs = ''Step '' @ Name (steps ! k) @ '' failed: '' @ out\<rparr> \<and>
     sublist (Name (steps ! k)) (Logs (failure_record bid (steps ! k) out)) \<and>
     map_option Status (buildStatuses (snd (build_goroutine run steps bid s)) bid) = Some ''Failed''"
proof -
  from EP_fails_at[OF assms, of bid] obtain s' where
    s': "ExecutePipeline run steps bid s = (Returned (Some e), s')"
     "writes_to bid (events s') = writes_to bid (events s) @
        map (progress_record bid) (take k steps) @ [failure_record bid (steps ! k) out]"
     "buildStatuses s' bid = Some (failure_record bid (steps ! k) out)"
    by blast
  have "sublist (Name (steps ! k)) (''Step '' @ Name (steps ! k) @ ('' failed: '' @ out))"
    by (rule sublist_appendI)
  then have "sublist (Name (steps ! k)) (Logs (failure_record bid (steps ! k) out))"
    by (simp add: failure_record_def)
  then show ?thesis
    using s' build_goroutine_Returned[OF s'(1)] by (simp add: failure_record_def)
qed

text \<open>Claim C1 at compile, test, deploy: k = 1, the test step exits with status 1.\<close>

theorem C1_witness:
  "(1::nat) < length compile_test_deploy \<and>
   succeed_all sample_run (world (init_server (0::nat))) (take 1 compile_test_deploy) = Some 1 \<and>
   run_step sample_run 1 (compile_test_deploy ! 1) = Some ([], Some ''exit status 1'', 2) \<and>
   fst (ExecutePipeline sample_run compile_test_deploy ''b1'' (init_server 0)) =
     Returned (Some ''exit status 1'') \<and>
   writes_to ''b1'' (events (snd (ExecutePipeline sample_run compile_test_deploy ''b1'' (init_server 0)))) =
     [\<lparr>ID = ''b1'', Status = ''In Progress'', Logs = ''Step compile completed successfully''\<rparr>,
      \<lparr>ID = ''b1'', Status = ''Failed'', Logs = ''Step test failed: ''\<rparr>] \<and>
   map_option Status
     (buildStatuses (snd (build_goroutine sample_run compile_test_deploy ''b1'' (init_server 0))) ''b1'')
     = Some ''Failed''"
proof -
  have k: "(1::nat) < length compile_test_deploy"
    by (simp add: compile_test_deploy_def)
  have ok: "succeed_all sample_run (world (init_server (0::nat))) (take 1 compile_test_deploy) = Some 1"
    by (simp add: compile_test_deploy_def init_server_def run_step_def sample_run_def)
  have bad: "run_step sample_run 1 (compile_test_deploy ! 1) = Some ([], Some ''exit status 1'', 2)"
    by (simp add: compile_test_deploy_def run_step_def sample_run_def)
  from C1_failure_after_k_steps[OF k ok bad, of "''b1''"] k ok bad show ?thesis
    by (simp add: compile_test_deploy_def init_server_def progress_record_def failure_record_def)
qed

subsection \<open>C2: a pipeline whose steps all succeed\<close>

text \<open>
  Claim C2 says that the final record has phase Success and a log of N+1 entries, one
  for each step and a summary. For the pipeline with the single step build, the final
  \<open>Logs\<close> is the summary line alone: neither the entry written for the step nor the
  step's name occurs in it.
\<close>

theorem C2_counterexample:
  "buildStatuses (snd (run_build sample_run build_only ''b1'' (init_server 0))) ''b1''
     = Some \<lparr>ID = ''b1'', Status = ''Success'', Logs = ''Pipeline completed with status: Success''\<rparr> \<and>
   \<not> sublist ''Step build completed successfully'' ''Pipeline completed with status: Success'' \<and>
   \<not> sublist ''build'' ''Pipeline completed with status: Success''"
  by (simp add: eval_defs sublist_Cons_right)

text \<open>
  Claim C2, as the source has it. When all N steps succeed, the build ends with
  phase \<open>Success\<close>. After the handler's first record, with empty \<open>Logs\<close>, exactly N+1
  entries are assigned to the record's \<open>Logs\<close>, one for each step in the order of
  the steps and then the summary; each assignment replaces the entry before it, so the
  final \<open>Logs\<close> is the summary alone.
\<close>

theorem C2_all_steps_succeed:
  assumes "succeed_all run (world s) (Pipeline config) = Some w'"
  shows "fst (run_build run config uuid s) = Returned () \<and>
     writes_to uuid (events (snd (run_build run config uuid s))) =
       writes_to uuid (events s) @
       \<lparr>ID = uuid, Status = ''In Progress'', Logs = []\<rparr> #
       map (progress_record uuid) (Pipeline config) @
       [\<lparr>ID = uuid, Status = ''Success'', Logs = ''Pipeline completed with status: Success''\<rparr>] \<and>
     buildStatuses (snd (run_build run config uuid s)) uuid =
       Some \<lparr>ID = uuid, Status = ''Success'', Logs = ''Pipeline completed with status: Success''\<rparr>"
proof -
  let ?s1 = "assign uuid \<lparr>ID = uuid, Status = ''In Progress'', Logs = []\<rparr>
          (log_Println ''Triggering build...'' s)"
  have "succeed_all run (world ?s1) (Pipeline config) = Some w'" using assms by simp
  from EP_success[OF this, of uuid] obtain s2 where
    s2: "ExecutePipeline run (Pipeline config) uuid ?s1 = (Returned None, s2)"
      "writes_to uuid (events s2) = writes_to uuid (events ?s1) @ map (progress_record uuid) (Pipeline config)"
    by blast
  have "run_build run config uuid s = (Returned (), goroutine_finish uuid None s2)"
    using build_goroutine_Returned[OF s2(1)] by (simp add: run_build_unfold)
  then show ?thesis using s2(2) by simp
qed

text \<open>Claim C2 at the pipeline with the single step build.\<close>

theorem C2_witness:
  "succeed_all sample_run (world (init_server (0::nat))) (Pipeline build_only) = Some 1 \<and>
   fst (run_build sample_run build_only ''b1'' (init_server 0)) = Returned () \<and>
   writes_to ''b1'' (events (snd (run_build sample_run build_only ''b1'' (init_server 0)))) =
     [\<lparr>ID = ''b1'', Status = ''In Progress'', Logs = []\<rparr>,
      \<lparr>ID = ''b1'', Status = ''In Progress'', Logs = ''Step build completed successfully''\<rparr>,
      \<lparr>ID = ''b1'', Status = ''Success'', Logs = ''Pipeline completed with status: Success''\<rparr>]"
proof -
  have h: "succeed_all sample_run (world (init_server (0::nat))) (Pipeline build_only) = Some 1"
    by (simp add: build_only_def init_server_def run_step_def sample_run_def)
  from C2_all_steps_succeed[OF h, of "''b1''"] h show ?thesis
    by (simp add: build_only_def init_server_def progress_record_def)
qed

subsection \<open>C3: the output of the failing step\<close>

text \<open>
  Claim C3 says that the output of the failing step is visible in the \<open>logs\<close> of the
  final record. The notes at the end of main.go say the same: "If a step fails, the logs
  will contain the error output from the command that failed." Lines 199 to 203 do
  store it, and lines 136 to 140 then overwrite it. Here the step test prints "boom"
  and exits with status 1: when \<open>ExecutePipeline\<close> returns, \<open>Logs\<close> holds the output;
  when the goroutine has ended, \<open>Logs\<close> is the summary line, and "boom" does not occur
  in it.
\<close>

theorem C3_failure_output_overwritten:
  "buildStatuses (snd (ExecutePipeline sample_run (Pipeline failing_test) ''b1''
       (snd (snd (triggerBuild (Inr failing_test) ''b1'' (init_server 0)))))) ''b1''
     = Some \<lparr>ID = ''b1'', Status = ''Failed'', Logs = ''Step test failed: boom''\<rparr> \<and>
   buildStatuses (snd (run_build sample_run failing_test ''b1'' (init_server 0))) ''b1''
     = Some \<lparr>ID = ''b1'', Status = ''Failed'', Logs = ''Pipeline completed with status: Failed''\<rparr> \<and>
   \<not> sublist ''boom'' ''Pipeline completed with status: Failed''"
  by (simp add: eval_defs sublist_Cons_right)

subsection \<open>C5: order of execution and stopping at the first failure\<close>

text \<open>
  Claim C5. \<open>ExecutePipeline\<close> runs the steps of the pipeline one after the other,
  in the order of the pipeline, and stops at the first step that does not succeed. The
  processes it starts are those of the first n steps, in that order; each of them is
  run in the world that the steps before it left, which all exited without error, and
  its recorded outcome is what the runner yields there. No step is run after one that
  failed or that never exits. The execution does not stop early: when fewer than all
  the steps were run, the last one run did not succeed, or the next step has no
  command (and the function panics). When every step succeeds, all of them are run. The
  result says how the execution ended: \<open>nil\<close> exactly when all the steps were run and
  all succeeded, the error of the last step run when it failed.
\<close>

theorem C5_steps_in_order_fail_fast:
  "\<exists>rs. runs_of (events (snd (ExecutePipeline run steps bid s))) = runs_of (events s) @ rs \<and>
        length rs \<le> length steps \<and>
        map fst rs = map Cmd (take (length rs) steps) \<and>
        list_all exited_ok (butlast rs) \<and>
        (\<forall>i<length rs. Cmd (steps ! i) \<noteq> [] \<and>
           (\<exists>w. succeed_all run (world s) (take i steps) = Some w \<and>
                snd (rs ! i) = map_option (\<lambda>(out, err, w'). (out, err)) (run_step run w (steps ! i)))) \<and>
        (length rs < length steps \<longrightarrow>
           (rs \<noteq> [] \<and> \<not> exited_ok (last rs)) \<or> Cmd (steps ! length rs) = []) \<and>
        (succeed_all run (world s) steps \<noteq> None \<longrightarrow>
           length rs = length steps \<and> list_all exited_ok rs) \<and>
        (fst (ExecutePipeline run steps bid s) = Returned None \<longleftrightarrow>
           length rs = length steps \<and> list_all exited_ok rs) \<and>
        (fst (ExecutePipeline run steps bid s) = Panicked \<longleftrightarrow>
           length rs < length steps \<and> list_all exited_ok rs) \<and>
        (fst (ExecutePipeline run steps bid s) = Blocked \<longleftrightarrow>
           rs \<noteq> [] \<and> snd (last rs) = None) \<and>
        (\<forall>e. fst (ExecutePipeline run steps bid s) = Returned (Some e) \<longleftrightarrow>
           rs \<noteq> [] \<and> (\<exists>out. snd (last rs) = Some (out, Some e)))"
proof -
  let ?R = "ExecutePipeline run steps bid s"
  from EP_runs_exact[of run steps bid s] obtain rs where
    1: "runs_of (events (snd ?R)) = runs_of (events s) @ rs" and
    2: "length rs \<le> length steps" and
    3: "map fst rs = map Cmd (take (length rs) steps)" and
    4: "list_all exited_ok (butlast rs)" and
    5: "\<forall>i<length rs. Cmd (steps ! i) \<noteq> [] \<and>
           (\<exists>w. succeed_all run (world s) (take i steps) = Some w \<and>
                snd (rs ! i) = map_option (\<lambda>(out, err, w'). (out, err)) (run_step run w (steps ! i)))" and
    6: "length rs < length steps \<longrightarrow>
           (rs \<noteq> [] \<and> \<not> exited_ok (last rs)) \<or> Cmd (steps ! length rs) = []" and
    7: "fst ?R = Returned None \<longleftrightarrow> length rs = length steps \<and> list_all exited_ok rs" and
    8: "fst ?R = Panicked \<longleftrightarrow> length rs < length steps \<and> list_all exited_ok rs" and
    9: "fst ?R = Blocked \<longleftrightarrow> rs \<noteq> [] \<and> snd (last rs) = None" and
    10: "\<forall>e. fst ?R = Returned (Some e) \<longleftrightarrow> rs \<noteq> [] \<and> (\<exists>out. snd (last rs) = Some (out, Some e))"
    by blast
  have 11: "succeed_all run (world s) steps \<noteq> None \<longrightarrow>
           length rs = length steps \<and> list_all exited_ok rs"
  proof
    assume "succeed_all run (world s) steps \<noteq> None"
    then obtain w' where "succeed_all run (world s) steps = Some w'" by auto
    from EP_success[OF this, of bid] have "fst ?R = Returned None" by auto
    with 7 show "length rs = length steps \<and> list_all exited_ok rs" by simp
  qed
  show ?thesis
    by (rule exI[of _ rs]) (intro conjI 1 2 3 4 5 6 11 7 8 9 10)
qed

text \<open>
  Claim C5 at compile, package, deploy, where all three steps are run in order, and at
  compile, test, deploy, where the test fails: two processes are run and the deploy
  step is never announced.
\<close>

theorem C5_witness:
  "succeed_all sample_run (world (init_server (0::nat))) compile_package_deploy = Some 3 \<and>
   length (runs_of (events (snd (ExecutePipeline sample_run compile_package_deploy ''b1'' (init_server 0)))))
     = 3 \<and>
   map fst (runs_of (events (snd (ExecutePipeline sample_run compile_package_deploy ''b1'' (init_server 0)))))
     = map Cmd compile_package_deploy \<and>
   fst (ExecutePipeline sample_run compile_package_deploy ''b1'' (init_server 0)) = Returned None \<and>
   runs_of (events (snd (ExecutePipeline sample_run compile_test_deploy ''b1'' (init_server 0)))) =
     [([''true''], Some ([], None)), ([''false''], Some ([], Some ''exit status 1''))] \<and>
   ''Executing step: test'' \<in>
     set (printed (events (snd (ExecutePipeline sample_run compile_test_deploy ''b1'' (init_server 0))))) \<and>
   ''Executing step: deploy'' \<notin>
     set (printed (events (snd (ExecutePipeline sample_run compile_test_deploy ''b1'' (init_server 0)))))"
proof -
  let ?G = "ExecutePipeline sample_run compile_package_deploy ''b1'' (init_server 0)"
  have ok: "succeed_all sample_run (world (init_server (0::nat))) compile_package_deploy = Some 3"
    by (simp add: compile_package_deploy_def init_server_def run_step_def sample_run_def)
  from C5_steps_in_order_fail_fast[of sample_run compile_package_deploy "''b1''" "init_server 0"]
  obtain rs where
    r: "runs_of (events (snd ?G)) = runs_of (events (init_server (0::nat))) @ rs" and
    m: "map fst rs = map Cmd (take (length rs) compile_package_deploy)" and
    a: "succeed_all sample_run (world (init_server (0::nat))) compile_package_deploy \<noteq> None \<longrightarrow>
           length rs = length compile_package_deploy \<and> list_all exited_ok rs" and
    n: "fst ?G = Returned None \<longleftrightarrow> length rs = length compile_package_deploy \<and> list_all exited_ok rs"
    by blast
  from a ok have l: "length rs = length compile_package_deploy" and "list_all exited_ok rs" by simp_all
  with n have g4: "fst ?G = Returned None" by simp
  from r have rs: "runs_of (events (snd ?G)) = rs" by (simp add: init_server_def)
  from l rs have g2: "length (runs_of (events (snd ?G))) = 3"
    by (simp add: compile_package_deploy_def)
  from m l rs have g3: "map fst (runs_of (events (snd ?G))) = map Cmd compile_package_deploy"
    by simp
  have runs: "runs_of (events (snd (ExecutePipeline sample_run compile_test_deploy ''b1'' (init_server 0)))) =
     [([''true''], Some ([], None)), ([''false''], Some ([], Some ''exit status 1''))]"
    by (simp add: eval_defs)
  have l1: "''Executing step: test'' \<in>
     set (printed (events (snd (ExecutePipeline sample_run compile_test_deploy ''b1'' (init_server 0)))))"
    and l2: "''Executing step: deploy'' \<notin>
     set (printed (events (snd (ExecutePipeline sample_run compile_test_deploy ''b1'' (init_server 0)))))"
    by (simp_all add: eval_defs)
  show ?thesis
    by (intro conjI ok g2 g3 g4 runs l1 l2)
qed

subsection \<open>C6: the phases written to a record\<close>

text \<open>
  Claim C6. Take any state the process can reach, with handlers and goroutines
  interleaved in any way, in which every identifier was drawn once. The phases of the
  records assigned so far to an identifier form a chain: each one either repeats the
  phase before it or moves from \<open>In Progress\<close> to \<open>Success\<close> or to \<open>Failed\<close>; the
  first one is \<open>In Progress\<close> (\<open>Pending\<close> is never written); and once a record with
  phase \<open>Success\<close> or \<open>Failed\<close> has been assigned, every later one has the same
  phase. \<open>Failed\<close> is reached after any number of steps: from a running process, a
  build with a fresh identifier whose steps 1 to k succeed and whose step k+1 fails
  reaches a state in which the phases written are k+1 times \<open>In Progress\<close>, then
  \<open>Failed\<close> twice (by \<open>ExecutePipeline\<close>, then by the goroutine).
\<close>

theorem C6_phases_monotone:
  "(reach run w \<sigma> ids \<and> distinct ids \<longrightarrow>
      successively phase_step (map Status (writes_to bid (events (srv \<sigma>)))) \<and>
      (bid \<in> set ids \<longrightarrow> Status (hd (writes_to bid (events (srv \<sigma>)))) = ''In Progress'') \<and>
      (\<forall>i j. i \<le> j \<and> j < length (writes_to bid (events (srv \<sigma>))) \<and>
          (Status (writes_to bid (events (srv \<sigma>)) ! i) = ''Success'' \<or>
           Status (writes_to bid (events (srv \<sigma>)) ! i) = ''Failed'')
        \<longrightarrow> Status (writes_to bid (events (srv \<sigma>)) ! j) =
              Status (writes_to bid (events (srv \<sigma>)) ! i))) \<and>
   (reach run w \<sigma> ids \<and> distinct ids \<and> \<not> ended \<sigma> \<and> uuid \<notin> set ids \<and>
    k < length (Pipeline (config :: PipelineConfig)) \<and>
    succeed_all run (world (srv \<sigma>)) (take k (Pipeline config)) = Some w1 \<and>
    run_step run w1 (Pipeline config ! k) = Some (out, Some e, w2) \<longrightarrow>
      (\<exists>\<sigma>'. reach run w \<sigma>' (ids @ [uuid]) \<and>
         map Status (writes_to uuid (events (srv \<sigma>'))) =
           replicate (Suc k) ''In Progress'' @ [''Failed'', ''Failed'']))"
proof (intro conjI impI allI)
  assume a: "reach run w \<sigma> ids \<and> distinct ids"
  then show succ: "successively phase_step (map Status (writes_to bid (events (srv \<sigma>))))"
    using reach_phases_successively[of run w \<sigma> ids bid] by blast
  {
    assume "bid \<in> set ids"
    with a show "Status (hd (writes_to bid (events (srv \<sigma>)))) = ''In Progress''"
      using reach_phases_hd[of run w \<sigma> ids bid] by blast
  }
  fix i j
  assume b: "i \<le> j \<and> j < length (writes_to bid (events (srv \<sigma>))) \<and>
          (Status (writes_to bid (events (srv \<sigma>)) ! i) = ''Success'' \<or>
           Status (writes_to bid (events (srv \<sigma>)) ! i) = ''Failed'')"
  from phase_step_absorbing[OF succ, of i j] b
  show "Status (writes_to bid (events (srv \<sigma>)) ! j) = Status (writes_to bid (events (srv \<sigma>)) ! i)"
    by simp
next
  assume a: "reach run w \<sigma> ids \<and> distinct ids \<and> \<not> ended \<sigma> \<and> uuid \<notin> set ids \<and>
    k < length (Pipeline config) \<and>
    succeed_all run (world (srv \<sigma>)) (take k (Pipeline config)) = Some w1 \<and>
    run_step run w1 (Pipeline config ! k) = Some (out, Some e, w2)"
  then have "phases_inv \<sigma> ids" using reach_phases_inv[of run w \<sigma> ids] by blast
  with a have none: "writes_to uuid (events (srv \<sigma>)) = []"
    by (simp add: phases_inv_def phases_def)
  from a reach_run_build[of run w \<sigma> ids uuid config] obtain \<sigma>' where
    \<sigma>': "reach run w \<sigma>' (ids @ [uuid])" "srv \<sigma>' = snd (run_build run config uuid (srv \<sigma>))"
    by blast
  from a run_build_fails_at[of k config run "srv \<sigma>" w1 out e w2 uuid] none \<sigma>'(2)
  have "map Status (writes_to uuid (events (srv \<sigma>'))) =
           replicate (Suc k) ''In Progress'' @ [''Failed'', ''Failed'']"
    by simp
  with \<sigma>'(1) show "\<exists>\<sigma>'. reach run w \<sigma>' (ids @ [uuid]) \<and>
         map Status (writes_to uuid (events (srv \<sigma>'))) =
           replicate (Suc k) ''In Progress'' @ [''Failed'', ''Failed'']"
    by blast
qed

text \<open>
  Claim C6 at compile, test, deploy: in the middle of the build, and for the whole build
  started on a fresh process.
\<close>

theorem C6_witness:
  "reach sample_run 0 (boot 0) [] \<and> distinct ([] :: string list) \<and> \<not> ended (boot (0::nat)) \<and>
   (1::nat) < length (Pipeline \<lparr>Pipeline = compile_test_deploy\<rparr>) \<and>
   succeed_all sample_run (world (srv (boot (0::nat))))
     (take 1 (Pipeline \<lparr>Pipeline = compile_test_deploy\<rparr>)) = Some 1 \<and>
   run_step sample_run 1 (Pipeline \<lparr>Pipeline = compile_test_deploy\<rparr> ! 1)
     = Some ([], Some ''exit status 1'', 2) \<and>
   (\<exists>\<sigma>'. reach sample_run 0 \<sigma>' [''b1''] \<and>
      map Status (writes_to ''b1'' (events (srv \<sigma>'))) =
        [''In Progress'', ''In Progress'', ''Failed'', ''Failed'']) \<and>
   reach sample_run 0
     (sys_advance sample_run 0 (snd (sys_trigger (Inr \<lparr>Pipeline = compile_test_deploy\<rparr>) ''b1'' (boot 0))))
     [''b1''] \<and>
   map Status (writes_to ''b1'' (events (srv
     (sys_advance sample_run 0 (snd (sys_trigger (Inr \<lparr>Pipeline = compile_test_deploy\<rparr>) ''b1'' (boot 0)))))))
     = [''In Progress'', ''In Progress''] \<and>
   successively phase_step (map Status (writes_to ''b1'' (events (srv
     (sys_advance sample_run 0 (snd (sys_trigger (Inr \<lparr>Pipeline = compile_test_deploy\<rparr>) ''b1'' (boot 0))))))))"
proof -
  let ?c = "\<lparr>Pipeline = compile_test_deploy\<rparr>"
  let ?\<sigma>1 = "snd (sys_trigger (Inr ?c) ''b1'' (boot (0::nat)))"
  let ?\<sigma>2 = "sys_advance sample_run 0 ?\<sigma>1"
  have r0: "reach sample_run 0 (boot 0) []" by (rule reach_boot)
  have e0: "\<not> ended (boot (0::nat))" by (simp add: boot_def)
  have k: "(1::nat) < length (Pipeline ?c)"
    by (simp add: compile_test_deploy_def)
  have ok: "succeed_all sample_run (world (srv (boot (0::nat)))) (take 1 (Pipeline ?c)) = Some 1"
    by (simp add: compile_test_deploy_def boot_def init_server_def run_step_def sample_run_def)
  have bad: "run_step sample_run 1 (Pipeline ?c ! 1) = Some ([], Some ''exit status 1'', 2)"
    by (simp add: compile_test_deploy_def run_step_def sample_run_def)
  have "reach sample_run 0 ?\<sigma>1 ([] @ [''b1''])"
    by (rule reach_trigger[OF r0 e0])
  then have r1: "reach sample_run 0 ?\<sigma>1 [''b1'']" by simp
  have r2: "reach sample_run 0 ?\<sigma>2 [''b1'']"
    by (rule reach_advance[OF r1]) (simp_all add: eval_defs)
  have ph: "map Status (writes_to ''b1'' (events (srv ?\<sigma>2))) = [''In Progress'', ''In Progress'']"
    by (simp add: eval_defs)
  from C6_phases_monotone[where run=sample_run and w=0 and \<sigma>="?\<sigma>2" and ids="[''b1'']" and bid="''b1''"] r2
  have mono: "successively phase_step (map Status (writes_to ''b1'' (events (srv ?\<sigma>2))))"
    by simp
  from C6_phases_monotone[where run=sample_run and w=0 and \<sigma>="boot 0" and ids="[]" and uuid="''b1''" and k=1
      and config="?c" and ?w1.0=1 and out="[]" and e="''exit status 1''" and ?w2.0=2]
    r0 e0 k ok bad
  have "\<exists>\<sigma>'. reach sample_run 0 \<sigma>' ([] @ [''b1'']) \<and>
      map Status (writes_to ''b1'' (events (srv \<sigma>'))) =
        replicate (Suc 1) ''In Progress'' @ [''Failed'', ''Failed'']"
    by simp
  then have fail: "\<exists>\<sigma>'. reach sample_run 0 \<sigma>' [''b1''] \<and>
      map Status (writes_to ''b1'' (events (srv \<sigma>'))) =
        [''In Progress'', ''In Progress'', ''Failed'', ''Failed'']"
    by simp
  from r0 e0 k ok bad fail r2 ph mono show ?thesis by simp
qed

subsection \<open>C7: status queries and unknown identifiers\<close>

text \<open>
  Claim C7. A status query answers 404, "Build ID not found", exactly for the
  identifiers for which no call of \<open>triggerBuild\<close> has created a record; for every
  other identifier it answers 200 with the record that the map holds at that moment.
  This holds in every state the process can reach, whatever requests were served and
  however the goroutines were scheduled.
\<close>

theorem C7_checkStatus_not_found_iff_never_created:
  assumes "reach run w \<sigma> ids"
  shows "(checkStatus bid (srv \<sigma>) = \<lparr>code = 404, body = Plain ''Build ID not found''\<rparr>
            \<longleftrightarrow> bid \<notin> set ids) \<and>
         (bid \<in> set ids \<longrightarrow>
            (\<exists>status. buildStatuses (srv \<sigma>) bid = Some status \<and>
               checkStatus bid (srv \<sigma>) = \<lparr>code = 200, body = JSON_BuildStatus status\<rparr>))"
proof -
  from reach_invariant[OF assms] have d: "dom (buildStatuses (srv \<sigma>)) = set ids" by simp
  show ?thesis
  proof (cases "buildStatuses (srv \<sigma>) bid")
    case None
    then have "bid \<notin> set ids" using d by auto
    then show ?thesis using None by (simp add: checkStatus_def)
  next
    case (Some status)
    then have "bid \<in> set ids" using d by auto
    then show ?thesis using Some by (simp add: checkStatus_def)
  qed
qed

text \<open>Claim C7 at a process that has served one trigger and run one loop iteration.\<close>

theorem C7_witness:
  "reach sample_run 0
     (sys_advance sample_run 0 (snd (sys_trigger (Inr \<lparr>Pipeline = compile_test_deploy\<rparr>) ''b1'' (boot 0))))
     [''b1''] \<and>
   checkStatus ''b1''
     (srv (sys_advance sample_run 0 (snd (sys_trigger (Inr \<lparr>Pipeline = compile_test_deploy\<rparr>) ''b1'' (boot 0)))))
     = \<lparr>code = 200, body = JSON_BuildStatus
          \<lparr>ID = ''b1'', Status = ''In Progress'', Logs = ''Step compile completed successfully''\<rparr>\<rparr> \<and>
   checkStatus ''b2''
     (srv (sys_advance sample_run 0 (snd (sys_trigger (Inr \<lparr>Pipeline = compile_test_deploy\<rparr>) ''b1'' (boot 0)))))
     = \<lparr>code = 404, body = Plain ''Build ID not found''\<rparr>"
proof -
  let ?\<sigma>1 = "snd (sys_trigger (Inr \<lparr>Pipeline = compile_test_deploy\<rparr>) ''b1'' (boot (0::nat)))"
  let ?\<sigma>2 = "sys_advance sample_run 0 ?\<sigma>1"
  have r1: "reach sample_run 0 ?\<sigma>1 ([] @ [''b1''])"
    by (rule reach_trigger[OF reach_boot]) (simp add: boot_def)
  then have r1: "reach sample_run 0 ?\<sigma>1 [''b1'']"
    by simp
  have r2: "reach sample_run 0 ?\<sigma>2 [''b1'']"
    by (rule reach_advance[OF r1]) (simp_all add: eval_defs)
  have st: "buildStatuses (srv ?\<sigma>2) ''b1'' = Some \<lparr>ID = ''b1'', Status = ''In Progress'', Logs = ''Step compile completed successfully''\<rparr>"
    by (simp add: eval_defs)
  from C7_checkStatus_not_found_iff_never_created[OF r2, of "''b1''"]
       C7_checkStatus_not_found_iff_never_created[OF r2, of "''b2''"] st r2
  show ?thesis by simp
qed

subsection \<open>C8: an identifier that is already in the map\<close>

text \<open>
  Claim C8 says that creating a record under an identifier that the map already holds
  fails with a duplicate-identifier error. The source has no such check: line 123 is a
  plain assignment. Here \<open>b1\<close> is a finished build with phase \<open>Success\<close>; a trigger
  that draws \<open>b1\<close> again is answered 200 and the record is replaced.
\<close>

theorem C8_counterexample:
  "buildStatuses after_two_builds ''b1''
     = Some \<lparr>ID = ''b1'', Status = ''Success'', Logs = ''Pipeline completed with status: Success''\<rparr> \<and>
   fst (triggerBuild (Inr build_only) ''b1'' after_two_builds)
     = \<lparr>code = 200, body = JSON_Object [(''id'', ''b1''), (''message'', ''Build triggered'')]\<rparr> \<and>
   buildStatuses (snd (snd (triggerBuild (Inr build_only) ''b1'' after_two_builds))) ''b1''
     = Some \<lparr>ID = ''b1'', Status = ''In Progress'', Logs = []\<rparr>"
  by (simp add: eval_defs)

text \<open>
  Claim C8, as the source has it. When the identifier is already in the map,
  \<open>triggerBuild\<close> does not fail: it answers 200 with the identifier, replaces that
  identifier's record by a fresh one with phase \<open>In Progress\<close> and empty \<open>Logs\<close>, and
  launches the pipeline. No other identifier's record is changed.
\<close>

theorem C8_duplicate_identifier_overwrites:
  assumes "buildStatuses s uuid = Some old"
  shows "fst (triggerBuild (Inr config) uuid s) =
           \<lparr>code = 200, body = JSON_Object [(''id'', uuid), (''message'', ''Build triggered'')]\<rparr> \<and>
         fst (snd (triggerBuild (Inr config) uuid s)) = Some (uuid, Pipeline config) \<and>
         buildStatuses (snd (snd (triggerBuild (Inr config) uuid s))) uuid =
           Some \<lparr>ID = uuid, Status = ''In Progress'', Logs = []\<rparr> \<and>
         (\<forall>k. k \<noteq> uuid \<longrightarrow>
            buildStatuses (snd (snd (triggerBuild (Inr config) uuid s))) k = buildStatuses s k)"
  by (simp add: triggerBuild_Inr)

text \<open>Claim C8 at the server after two builds, with \<open>b1\<close> drawn again.\<close>

theorem C8_witness:
  "buildStatuses after_two_builds ''b1''
      = Some \<lparr>ID = ''b1'', Status = ''Success'', Logs = ''Pipeline completed with status: Success''\<rparr> \<and>
   code (fst (triggerBuild (Inr build_only) ''b1'' after_two_builds)) = 200 \<and>
   buildStatuses (snd (snd (triggerBuild (Inr build_only) ''b1'' after_two_builds))) ''b1''
      = Some \<lparr>ID = ''b1'', Status = ''In Progress'', Logs = []\<rparr> \<and>
   buildStatuses (snd (snd (triggerBuild (Inr build_only) ''b1'' after_two_builds))) ''b2''
      = Some \<lparr>ID = ''b2'', Status = ''Failed'', Logs = ''Pipeline completed with status: Failed''\<rparr>"
proof -
  have h: "buildStatuses after_two_builds ''b1''
      = Some \<lparr>ID = ''b1'', Status = ''Success'', Logs = ''Pipeline completed with status: Success''\<rparr>"
    by (simp add: eval_defs)
  have o: "buildStatuses after_two_builds ''b2''
      = Some \<lparr>ID = ''b2'', Status = ''Failed'', Logs = ''Pipeline completed with status: Failed''\<rparr>"
    by (simp add: eval_defs)
  from C8_duplicate_identifier_overwrites[OF h, of build_only]
  have "code (fst (triggerBuild (Inr build_only) ''b1'' after_two_builds)) = 200"
    and "buildStatuses (snd (snd (triggerBuild (Inr build_only) ''b1'' after_two_builds))) ''b1''
      = Some \<lparr>ID = ''b1'', Status = ''In Progress'', Logs = []\<rparr>"
    and "buildStatuses (snd (snd (triggerBuild (Inr build_only) ''b1'' after_two_builds))) ''b2''
      = buildStatuses after_two_builds ''b2''"
    by simp_all
  with h o show ?thesis by simp
qed

subsection \<open>C9: the goroutine's closing assignment\<close>

text \<open>
  Claim C9 says that the goroutine always ends with a terminal assignment. A step
  whose command vector is empty makes \<open>step.Cmd[0]\<close> panic, and the goroutine has no
  \<open>recover\<close>: lines 132 to 140 are not reached, the only record ever assigned is the
  handler's, and the phase stays \<open>In Progress\<close>.
\<close>

theorem C9_counterexample:
  "fst (run_build sample_run lint_only ''b1'' (init_server 0)) = Panicked \<and>
   writes_to ''b1'' (events (snd (run_build sample_run lint_only ''b1'' (init_server 0))))
     = [\<lparr>ID = ''b1'', Status = ''In Progress'', Logs = []\<rparr>] \<and>
   buildStatuses (snd (run_build sample_run lint_only ''b1'' (init_server 0))) ''b1''
     = Some \<lparr>ID = ''b1'', Status = ''In Progress'', Logs = []\<rparr>"
  by (simp add: eval_defs)

text \<open>
  Claim C9, as the source has it. Whenever \<open>ExecutePipeline\<close> returns, the goroutine
  ends with one more assignment: the phase is \<open>Success\<close> if the returned error is
  \<open>nil\<close> and \<open>Failed\<close> otherwise, and \<open>Logs\<close> is replaced by the single line
  "Pipeline completed with status: <status>", whatever the record held before. And
  \<open>ExecutePipeline\<close> does return when every step has a command and every process
  exits.
\<close>

theorem C9_goroutine_ends_with_summary:
  "(\<forall>err s'. ExecutePipeline run steps bid s = (Returned err, s') \<longrightarrow>
      build_goroutine run steps bid s =
        (Returned (),
         assign bid \<lparr>ID = bid, Status = (if err = None then ''Success'' else ''Failed''),
           Logs = ''Pipeline completed with status: '' @ (if err = None then ''Success'' else ''Failed'')\<rparr> s') \<and>
      buildStatuses (snd (build_goroutine run steps bid s)) bid =
        Some \<lparr>ID = bid, Status = (if err = None then ''Success'' else ''Failed''),
           Logs = ''Pipeline completed with status: '' @ (if err = None then ''Success'' else ''Failed'')\<rparr>) \<and>
   ((\<forall>step\<in>set steps. \<forall>w. run_step run w step \<noteq> None) \<longrightarrow>
      (\<exists>err. fst (ExecutePipeline run steps bid s) = Returned err))"
proof (intro conjI allI impI)
  fix err s'
  assume ep: "ExecutePipeline run steps bid s = (Returned err, s')"
  show "build_goroutine run steps bid s =
        (Returned (),
         assign bid \<lparr>ID = bid, Status = (if err = None then ''Success'' else ''Failed''),
           Logs = ''Pipeline completed with status: '' @ (if err = None then ''Success'' else ''Failed'')\<rparr> s')"
    using build_goroutine_Returned[OF ep] by (simp add: goroutine_finish_def Let_def)
  show "buildStatuses (snd (build_goroutine run steps bid s)) bid =
        Some \<lparr>ID = bid, Status = (if err = None then ''Success'' else ''Failed''),
           Logs = ''Pipeline completed with status: '' @ (if err = None then ''Success'' else ''Failed'')\<rparr>"
    using build_goroutine_Returned[OF ep] by simp
next
  assume "\<forall>step\<in>set steps. \<forall>w. run_step run w step \<noteq> None"
  then show "\<exists>err. fst (ExecutePipeline run steps bid s) = Returned err"
    by (rule EP_returns)
qed

text \<open>
  Claim C9 at compile, test, deploy: the entry "Step test failed: " that
  \<open>ExecutePipeline\<close> left in \<open>Logs\<close> is replaced by the summary.
\<close>

theorem C9_witness:
  "list_all (\<lambda>step. \<forall>w. run_step sample_run w step \<noteq> None) compile_test_deploy \<and>
   fst (ExecutePipeline sample_run compile_test_deploy ''b1'' (init_server 0))
     = Returned (Some ''exit status 1'') \<and>
   buildStatuses (snd (ExecutePipeline sample_run compile_test_deploy ''b1'' (init_server 0))) ''b1''
     = Some \<lparr>ID = ''b1'', Status = ''Failed'', Logs = ''Step test failed: ''\<rparr> \<and>
   buildStatuses (snd (build_goroutine sample_run compile_test_deploy ''b1'' (init_server 0))) ''b1''
     = Some \<lparr>ID = ''b1'', Status = ''Failed'', Logs = ''Pipeline completed with status: Failed''\<rparr>"
proof -
  have pre: "\<forall>step\<in>set compile_test_deploy. \<forall>w. run_step sample_run w step \<noteq> None"
    by (simp add: compile_test_deploy_def run_step_def sample_run_def)
  have r: "fst (ExecutePipeline sample_run compile_test_deploy ''b1'' (init_server 0))
      = Returned (Some ''exit status 1'')"
    by (simp add: eval_defs)
  then have ep: "ExecutePipeline sample_run compile_test_deploy ''b1'' (init_server 0) =
      (Returned (Some ''exit status 1''), snd (ExecutePipeline sample_run compile_test_deploy ''b1'' (init_server 0)))"
    by (simp add: prod_eq_iff)
  have mid: "buildStatuses (snd (ExecutePipeline sample_run compile_test_deploy ''b1'' (init_server 0))) ''b1''
     = Some \<lparr>ID = ''b1'', Status = ''Failed'', Logs = ''Step test failed: ''\<rparr>"
    by (simp add: eval_defs)
  note C9 = C9_goroutine_ends_with_summary[of sample_run compile_test_deploy "''b1''" "init_server 0"]
  from C9 pre have "\<exists>err. fst (ExecutePipeline sample_run compile_test_deploy ''b1'' (init_server 0)) = Returned err"
    by blast
  moreover from C9[THEN conjunct1, rule_format, OF ep] have
    "buildStatuses (snd (build_goroutine sample_run compile_test_deploy ''b1'' (init_server 0))) ''b1''
     = Some \<lparr>ID = ''b1'', Status = ''Failed'', Logs = ''Pipeline completed with status: Failed''\<rparr>"
    by simp
  ultimately show ?thesis using pre r mid by (simp add: list_all_iff)
qed

subsection \<open>C10: an empty command vector\<close>

text \<open>
  Claim C10. \<open>ExecutePipeline\<close> panics exactly when it reaches a step whose command
  vector is empty, that is, when the pipeline has such a step and all the steps before
  it succeed; a pipeline whose first step has no command panics in every world. And a
  pipeline is safe from the panic for every runner and every state if and only if each
  of its steps has a non-empty command vector.
\<close>

theorem C10_empty_command_panics:
  "(fst (ExecutePipeline (run :: 'w runner) steps bid s) = Panicked \<longleftrightarrow>
      (\<exists>k<length steps. Cmd (steps ! k) = [] \<and>
         succeed_all run (world s) (take k steps) \<noteq> None)) \<and>
   ((\<forall>step\<in>set steps. Cmd step \<noteq> []) \<longleftrightarrow>
      (\<forall>(run' :: 'w runner) s'. fst (ExecutePipeline run' steps bid s') \<noteq> Panicked))"
proof (intro conjI iffI allI)
  assume "fst (ExecutePipeline run steps bid s) = Panicked"
  then show "\<exists>k<length steps. Cmd (steps ! k) = [] \<and>
         succeed_all run (world s) (take k steps) \<noteq> None"
    by (rule EP_panicked_reached)
next
  assume "\<exists>k<length steps. Cmd (steps ! k) = [] \<and>
         succeed_all run (world s) (take k steps) \<noteq> None"
  then obtain k where "k < length steps" "Cmd (steps ! k) = []"
    "succeed_all run (world s) (take k steps) \<noteq> None" by blast
  then show "fst (ExecutePipeline run steps bid s) = Panicked"
    by (rule EP_panics_at)
next
  fix run' :: "'w runner" and s'
  assume "\<forall>step\<in>set steps. Cmd step \<noteq> []"
  then show "fst (ExecutePipeline run' steps bid s') \<noteq> Panicked"
    by (rule EP_no_panic)
next
  assume safe: "\<forall>(run' :: 'w runner) s'. fst (ExecutePipeline run' steps bid s') \<noteq> Panicked"
  show "\<forall>step\<in>set steps. Cmd step \<noteq> []"
  proof (rule ccontr)
    assume "\<not> (\<forall>step\<in>set steps. Cmd step \<noteq> [])"
    then have "\<exists>step\<in>set steps. Cmd step = []" by simp
    from EP_panics_when_all_exit_ok[OF this, of bid] safe show False by blast
  qed
qed

text \<open>
  Claim C10 at the pipeline lint alone, at compile, test, deploy, and at compile, test,
  deploy followed by lint (where the failing test keeps lint from being reached, while
  another runner would reach it).
\<close>

theorem C10_witness:
  "Cmd (Pipeline lint_only ! 0) = [] \<and>
   succeed_all sample_run (world (init_server (0::nat))) (take 0 (Pipeline lint_only)) = Some 0 \<and>
   fst (ExecutePipeline sample_run (Pipeline lint_only) ''b1'' (init_server 0)) = Panicked \<and>
   list_all (\<lambda>step. Cmd step \<noteq> []) compile_test_deploy \<and>
   (\<forall>(run' :: nat runner) s'. fst (ExecutePipeline run' compile_test_deploy ''b1'' s') \<noteq> Panicked) \<and>
   \<not> list_all (\<lambda>step. Cmd step \<noteq> []) (compile_test_deploy @ Pipeline lint_only) \<and>
   (\<exists>(run' :: nat runner) s'.
      fst (ExecutePipeline run' (compile_test_deploy @ Pipeline lint_only) ''b1'' s') = Panicked) \<and>
   fst (ExecutePipeline sample_run (compile_test_deploy @ Pipeline lint_only) ''b1'' (init_server 0))
     \<noteq> Panicked"
proof -
  have a: "\<forall>step\<in>set compile_test_deploy. Cmd step \<noteq> []"
    by (simp add: compile_test_deploy_def)
  have b: "\<not> (\<forall>step\<in>set (compile_test_deploy @ Pipeline lint_only). Cmd step \<noteq> [])"
    by (simp add: lint_only_def)
  have c: "Cmd (Pipeline lint_only ! 0) = []"
    and d: "succeed_all sample_run (world (init_server (0::nat))) (take 0 (Pipeline lint_only)) = Some 0"
    by (simp_all add: lint_only_def init_server_def)
  have l: "(0::nat) < length (Pipeline lint_only)" by (simp add: lint_only_def)
  from C10_empty_command_panics[where run=sample_run and steps="Pipeline lint_only" and bid="''b1''" and s="init_server 0"]
    c d l
  have 1: "fst (ExecutePipeline sample_run (Pipeline lint_only) ''b1'' (init_server 0)) = Panicked"
    by blast
  from C10_empty_command_panics[where run=sample_run and steps=compile_test_deploy and bid="''b1''" and s="init_server 0"] a
  have 2: "\<forall>(run' :: nat runner) s'. fst (ExecutePipeline run' compile_test_deploy ''b1'' s') \<noteq> Panicked"
    by blast
  note both = C10_empty_command_panics[where run=sample_run and steps="compile_test_deploy @ Pipeline lint_only"
      and bid="''b1''" and s="init_server 0"]
  from both b
  have 3: "\<exists>(run' :: nat runner) s'.
      fst (ExecutePipeline run' (compile_test_deploy @ Pipeline lint_only) ''b1'' s') = Panicked"
    by blast
  have 4: "fst (ExecutePipeline sample_run (compile_test_deploy @ Pipeline lint_only) ''b1'' (init_server 0))
     \<noteq> Panicked"
    by (simp add: eval_defs)
  from 1 2 3 4 a b c d show ?thesis by (simp add: list_all_iff)
qed

end
